theory Spec2Isabelle
  imports Main "HOL-Library.Word" "HOL-Library.Signed_Division"
begin

unbundle bit_operations_syntax

section \<open>Machine integers of the Go source\<close>

text \<open>
  Go's \<^verbatim>\<open>int64\<close> is a 64-bit two's complement integer: \<open>+\<close>, \<open>-\<close> and unary
  minus wrap around, comparisons are signed (\<open><s\<close>, \<open>\<le>s\<close>), and \<^verbatim>\<open>/\<close> truncates
  towards zero and panics on a zero divisor (see \<open>go_div\<close> below).
\<close>

type_synonym int64 = "64 word"

text \<open>The run-time panics of the Go code that the functions below can reach.\<close>

datatype panic = DivideByZero | IndexOutOfRange | NilDereference

text \<open>
  The quotient of Go's \<^verbatim>\<open>a / b\<close> for a non-zero divisor: \<open>sdiv\<close> on \<open>int\<close> truncates
  towards zero, and \<open>word_of_int\<close> wraps the one quotient that does not fit
  (\<open>-2^63 / -1\<close>), as the hardware does.
\<close>

definition go_quot :: "int64 \<Rightarrow> int64 \<Rightarrow> int64" where
  "go_quot a b = word_of_int (sint a sdiv sint b)"

definition go_div :: "int64 \<Rightarrow> int64 \<Rightarrow> panic + int64" where
  "go_div a b = (if b = 0 then Inl DivideByZero else Inr (go_quot a b))"

section \<open>Block padding (utils.go, findPadding)\<close>

text \<open>
  Modelled from the spec: the constant \<^verbatim>\<open>blockSize\<close> is declared in a file of the
  repository that is not among the sources; the spec gives the archive block size as 512.
\<close>

definition blockSize :: int64 where
  "blockSize = 512"

text \<open>\<^verbatim>\<open>func findPadding(offset int64) (n int64) { return -offset & (blockSize - 1) }\<close>\<close>

definition findPadding :: "int64 \<Rightarrow> int64" where
  "findPadding offset = (- offset) AND (blockSize - 1)"

section \<open>Multipart part range (utils.go, findMinMaxPartRange)\<close>

definition KB :: int64 where
  "KB = 1024"

definition partsLimit :: int64 where
  "partsLimit = 10000"

definition partSizeMin :: int64 where
  "partSizeMin = KB * KB * 5"

definition partSizeMax :: int64 where
  "partSizeMax = KB * KB * KB * 5"

text \<open>
  The first loop of the function: it divides by \<^verbatim>\<open>nPartsMax\<close> before it tests
  anything, and it has no lower bound on \<^verbatim>\<open>nPartsMax\<close>.
  \<^verbatim>\<open>
  for {
    nPartsMaxSize = curSize / nPartsMax
    if nPartsMaxSize < partSizeMin { nPartsMax = nPartsMax - 1; continue }
    break
  }
  \<close>
\<close>

function nPartsMaxLoop :: "int64 \<Rightarrow> int64 \<Rightarrow> panic + int64" where
  "nPartsMaxLoop curSize nPartsMax =
     (case go_div curSize nPartsMax of
        Inl e \<Rightarrow> Inl e
      | Inr nPartsMaxSize \<Rightarrow>
          if nPartsMaxSize <s partSizeMin then nPartsMaxLoop curSize (nPartsMax - 1)
          else Inr nPartsMax)"
  by pat_completeness auto
termination
proof (relation "measure (\<lambda>(curSize, nPartsMax). unat nPartsMax)")
  show "wf (measure (\<lambda>(curSize, nPartsMax). unat nPartsMax))"
    by simp
next
  fix curSize nPartsMax nPartsMaxSize :: int64
  assume "go_div curSize nPartsMax = Inr nPartsMaxSize"
  then have "nPartsMax \<noteq> 0"
    by (auto simp: go_div_def split: if_splits)
  then have "unat (nPartsMax - 1) < unat nPartsMax"
    by (simp add: unat_minus_one unat_gt_0)
  then show "((curSize, nPartsMax - 1), (curSize, nPartsMax))
      \<in> measure (\<lambda>(curSize, nPartsMax). unat nPartsMax)"
    by simp
qed

text \<open>
  The second loop:
  \<^verbatim>\<open>
  for {
    nPartsMinSize = curSize / nPartsMin
    if nPartsMinSize > partSizeMax { nPartsMin += 1; continue }
    break
  }
  \<close>
\<close>

function nPartsMinLoop :: "int64 \<Rightarrow> int64 \<Rightarrow> panic + int64" where
  "nPartsMinLoop curSize nPartsMin =
     (case go_div curSize nPartsMin of
        Inl e \<Rightarrow> Inl e
      | Inr nPartsMinSize \<Rightarrow>
          if partSizeMax <s nPartsMinSize then nPartsMinLoop curSize (nPartsMin + 1)
          else Inr nPartsMin)"
  by pat_completeness auto
termination
proof (relation "measure (\<lambda>(curSize, nPartsMin). unat (- nPartsMin))")
  show "wf (measure (\<lambda>(curSize, nPartsMin). unat (- nPartsMin)))"
    by simp
next
  fix curSize nPartsMin nPartsMinSize :: int64
  assume "go_div curSize nPartsMin = Inr nPartsMinSize"
  then have "- nPartsMin \<noteq> 0"
    by (auto simp: go_div_def split: if_splits)
  then have "unat (- nPartsMin - 1) < unat (- nPartsMin)"
    by (simp add: unat_minus_one unat_gt_0)
  then show "((curSize, nPartsMin + 1), (curSize, nPartsMin))
      \<in> measure (\<lambda>(curSize, nPartsMin). unat (- nPartsMin))"
    by simp
qed

declare nPartsMaxLoop.simps [simp del] nPartsMinLoop.simps [simp del]

text \<open>
  \<^verbatim>\<open>func findMinMaxPartRange(objectSize int64) (int64, int64, int64)\<close>: the result is
  \<^verbatim>\<open>(nPartsMin, nPartsMax, mid)\<close>, or the panic of a division by zero in one of the loops;
  \<^verbatim>\<open>mid := nPartsMax / 2\<close> divides by a constant.
\<close>

definition findMinMaxPartRange :: "int64 \<Rightarrow> panic + (int64 \<times> int64 \<times> int64)" where
  "findMinMaxPartRange objectSize =
     (case nPartsMaxLoop objectSize partsLimit of
        Inl e \<Rightarrow> Inl e
      | Inr nPartsMax \<Rightarrow>
          (case nPartsMinLoop objectSize 1 of
             Inl e \<Rightarrow> Inl e
           | Inr nPartsMin \<Rightarrow> Inr (nPartsMin, nPartsMax, go_quot nPartsMax 2)))"

section \<open>Objects (utils.go, S3Obj)\<close>

text \<open>
  \<^verbatim>\<open>S3Obj\<close> embeds the SDK's \<^verbatim>\<open>types.Object\<close>, of which the code below reads
  \<^verbatim>\<open>Key\<close>, \<^verbatim>\<open>ETag\<close> and \<^verbatim>\<open>Size\<close>. \<^verbatim>\<open>Key\<close> and \<^verbatim>\<open>ETag\<close> are string pointers in
  Go; \<^verbatim>\<open>NewS3Obj\<close> and the listing always set them, and they are modelled as the strings
  they point to. Byte slices are modelled as strings, one \<open>char\<close> per byte.
\<close>

type_synonym bytes = string

record S3Obj =
  Key :: string
  ETag :: string
  Size :: int64
  Bucket :: string
  PartNum :: int64
  Data :: bytes
  NoHeaderRequired :: bool

text \<open>\<^verbatim>\<open>NewS3Obj\<close>: empty key and tag, every other field at its zero value.\<close>

definition NewS3Obj :: S3Obj where
  "NewS3Obj = \<lparr>Key = [], ETag = [], Size = 0, Bucket = [], PartNum = 0, Data = [],
     NoHeaderRequired = False\<rparr>"

text \<open>
  \<^verbatim>\<open>AddData\<close> stores the data, its length and the hexadecimal MD5 digest of it; the digest
  function of \<^verbatim>\<open>crypto/md5\<close> is a parameter.
\<close>

definition AddData :: "(bytes \<Rightarrow> string) \<Rightarrow> bytes \<Rightarrow> S3Obj \<Rightarrow> S3Obj" where
  "AddData md5hex data' s = s\<lparr>Data := data', Size := of_nat (length data'), ETag := md5hex data'\<rparr>"

section \<open>Decimal rendering (fmt.Sprintf with the verb d)\<close>

definition digits :: string where
  "digits = ''0123456789''"

fun decimal :: "nat \<Rightarrow> string" where
  "decimal n =
     (if n < 10 then [digits ! n]
      else decimal (n div 10) @ [digits ! (n mod 10)])"

declare decimal.simps [simp del]

definition fmt_d :: "int64 \<Rightarrow> string" where
  "fmt_d x = (if sint x < 0 then CHR ''-'' # decimal (nat (- sint x)) else decimal (nat (sint x)))"

section \<open>The CSV writer (encoding/csv, with its default comma and line end)\<close>

text \<open>
  \<^verbatim>\<open>csv.Writer\<close> belongs to Go's standard library. A field is quoted when it is
  \<^verbatim>\<open>\.\<close>, when it contains a comma, a quote, a carriage return or a line feed, or when
  its first rune is a space character of Unicode (given here by the UTF-8 encodings of
  those runes); inside the quotes a quote is doubled. Each record ends with a line feed.
\<close>

definition spaceRunes :: "string list" where
  "spaceRunes =
     [[CHR 0x09], [CHR 0x0A], [CHR 0x0B], [CHR 0x0C], [CHR 0x0D], [CHR 0x20],
      [CHR 0xC2, CHR 0x85], [CHR 0xC2, CHR 0xA0], [CHR 0xE1, CHR 0x9A, CHR 0x80],
      [CHR 0xE2, CHR 0x80, CHR 0x80], [CHR 0xE2, CHR 0x80, CHR 0x81],
      [CHR 0xE2, CHR 0x80, CHR 0x82], [CHR 0xE2, CHR 0x80, CHR 0x83],
      [CHR 0xE2, CHR 0x80, CHR 0x84], [CHR 0xE2, CHR 0x80, CHR 0x85],
      [CHR 0xE2, CHR 0x80, CHR 0x86], [CHR 0xE2, CHR 0x80, CHR 0x87],
      [CHR 0xE2, CHR 0x80, CHR 0x88], [CHR 0xE2, CHR 0x80, CHR 0x89],
      [CHR 0xE2, CHR 0x80, CHR 0x8A], [CHR 0xE2, CHR 0x80, CHR 0xA8],
      [CHR 0xE2, CHR 0x80, CHR 0xA9], [CHR 0xE2, CHR 0x80, CHR 0xAF],
      [CHR 0xE2, CHR 0x81, CHR 0x9F], [CHR 0xE3, CHR 0x80, CHR 0x80]]"

definition fieldNeedsQuotes :: "string \<Rightarrow> bool" where
  "fieldNeedsQuotes field =
     (if field = [] then False
      else if field = [CHR 0x5C, CHR ''.''] then True
      else if list_ex (\<lambda>c. c = CHR 0x0A \<or> c = CHR 0x0D \<or> c = CHR 0x22 \<or> c = CHR 0x2C) field
        then True
      else list_ex (\<lambda>r. take (length r) field = r) spaceRunes)"

definition csvField :: "string \<Rightarrow> string" where
  "csvField field =
     (if fieldNeedsQuotes field
      then CHR 0x22 # concat (map (\<lambda>c. if c = CHR 0x22 then [c, c] else [c]) field) @ [CHR 0x22]
      else field)"

fun csvJoin :: "string list \<Rightarrow> string" where
  "csvJoin [] = []"
| "csvJoin [f] = csvField f"
| "csvJoin (f # fs) = csvField f @ CHR 0x2C # csvJoin fs"

definition csvWrite :: "string list \<Rightarrow> string" where
  "csvWrite record = csvJoin record @ [CHR 0x0A]"

definition csvWriteAll :: "string list list \<Rightarrow> string" where
  "csvWriteAll records = concat (map csvWrite records)"

section \<open>The manifest (createCSVManifest, u_buildManifest, buildFirstPart)\<close>

text \<open>
  The loop of \<^verbatim>\<open>createCSVManifest\<close>, as a recursion over the entries not yet visited and
  the headers that belong to them: iteration \<^verbatim>\<open>i\<close> reads \<^verbatim>\<open>headers[i]\<close>, which panics
  when \<^verbatim>\<open>headers\<close> is shorter than \<^verbatim>\<open>objectList\<close>.
  \<^verbatim>\<open>
  for i := 0; i < len(objectList); i++ {
    currLocation += headers[i].Size
    line := []string{}
    line = append(line, *objectList[i].Key, fmt.Sprintf("%d", currLocation),
      fmt.Sprintf("%d", objectList[i].Size), *objectList[i].ETag)
    manifest = append(manifest, line)
    currLocation += objectList[i].Size
  }
  \<close>
\<close>

fun manifestLines :: "int64 \<Rightarrow> S3Obj list \<Rightarrow> S3Obj list \<Rightarrow> panic + string list list" where
  "manifestLines currLocation headers [] = Inr []"
| "manifestLines currLocation [] (obj # objectList) = Inl IndexOutOfRange"
| "manifestLines currLocation (header # headers) (obj # objectList) =
     (let currLocation = currLocation + Size header;
          line = [Key obj, fmt_d currLocation, fmt_d (Size obj), ETag obj];
          currLocation = currLocation + Size obj
      in case manifestLines currLocation headers objectList of
           Inl e \<Rightarrow> Inl e
         | Inr manifest \<Rightarrow> Inr (line # manifest))"

definition createCSVManifest :: "int64 \<Rightarrow> S3Obj list \<Rightarrow> S3Obj list \<Rightarrow> panic + bytes" where
  "createCSVManifest offset headers objectList =
     (let currLocation = offset + 512;
          currLocation = currLocation + findPadding currLocation
      in case manifestLines currLocation headers objectList of
           Inl e \<Rightarrow> Inl e
         | Inr manifest \<Rightarrow> Inr (csvWriteAll manifest))"

text \<open>
  The loop of \<^verbatim>\<open>_buildManifest\<close>; \<^verbatim>\<open>data.Len()\<close> is converted to \<^verbatim>\<open>int64\<close>.
  \<^verbatim>\<open>
  for {
    data = createCSVManifest(int64(estimate), headers, objectList)
    l := int64(data.Len())
    lp := l + findPadding(l)
    if lp >= estimate { break } else { estimate = lp }
  }
  \<close>
  The loop goes on only with a strictly smaller \<^verbatim>\<open>estimate\<close>, which is the measure of
  its termination.
\<close>

function buildManifestLoop :: "int64 \<Rightarrow> S3Obj list \<Rightarrow> S3Obj list \<Rightarrow> panic + bytes" where
  "buildManifestLoop estimate headers objectList =
     (case createCSVManifest estimate headers objectList of
        Inl e \<Rightarrow> Inl e
      | Inr data \<Rightarrow>
          (let l = of_nat (length data);
               lp = l + findPadding l
           in if estimate \<le>s lp then Inr data
              else buildManifestLoop lp headers objectList))"
  by pat_completeness auto
termination
proof (relation "measure (\<lambda>(estimate, headers, objectList). nat (sint estimate + 2 ^ 63))")
  show "wf (measure (\<lambda>(estimate, headers, objectList). nat (sint estimate + 2 ^ 63)))"
    by simp
next
  fix estimate l lp :: int64 and headers objectList :: "S3Obj list" and data :: bytes
  assume "\<not> estimate \<le>s lp"
  then have "sint lp < sint estimate"
    by (simp add: word_sle_eq)
  moreover have "0 \<le> sint lp + 2 ^ 63"
    using sint_ge [of lp] by simp
  ultimately show "((lp, headers, objectList), (estimate, headers, objectList))
      \<in> measure (\<lambda>(estimate, headers, objectList). nat (sint estimate + 2 ^ 63))"
    by simp
qed

declare buildManifestLoop.simps [simp del]

text \<open>\<^verbatim>\<open>_buildManifest\<close> (an Isabelle name cannot begin with an underscore).\<close>

definition u_buildManifest :: "S3Obj list \<Rightarrow> S3Obj list \<Rightarrow> panic + bytes" where
  "u_buildManifest headers objectList =
     (case createCSVManifest 0 headers objectList of
        Inl e \<Rightarrow> Inl e
      | Inr data \<Rightarrow> buildManifestLoop (of_nat (length data)) headers objectList)"

text \<open>
  The values that \<^verbatim>\<open>estimate\<close> takes, one for each iteration of the loop: the same
  recursion as \<open>buildManifestLoop\<close>, collecting \<^verbatim>\<open>estimate\<close> instead of returning the data.
\<close>

function estimates :: "int64 \<Rightarrow> S3Obj list \<Rightarrow> S3Obj list \<Rightarrow> int64 list" where
  "estimates estimate headers objectList =
     estimate #
     (case createCSVManifest estimate headers objectList of
        Inl e \<Rightarrow> []
      | Inr data \<Rightarrow>
          (let l = of_nat (length data);
               lp = l + findPadding l
           in if estimate \<le>s lp then []
              else estimates lp headers objectList))"
  by pat_completeness auto
termination
proof (relation "measure (\<lambda>(estimate, headers, objectList). nat (sint estimate + 2 ^ 63))")
  show "wf (measure (\<lambda>(estimate, headers, objectList). nat (sint estimate + 2 ^ 63)))"
    by simp
next
  fix estimate l lp :: int64 and headers objectList :: "S3Obj list" and data :: bytes
  assume "\<not> estimate \<le>s lp"
  then have "sint lp < sint estimate"
    by (simp add: word_sle_eq)
  moreover have "0 \<le> sint lp + 2 ^ 63"
    using sint_ge [of lp] by simp
  ultimately show "((lp, headers, objectList), (estimate, headers, objectList))
      \<in> measure (\<lambda>(estimate, headers, objectList). nat (sint estimate + 2 ^ 63))"
    by simp
qed

declare estimates.simps [simp del]

text \<open>
  Modelled from the spec: the code that places the header blocks and the data in the archive
  is not among the sources. The specification has the entries follow one another in list
  order, each one its header block and then its data, so an entry's header begins where
  the previous entry's data ends, the first one at \<open>start\<close>; the loop above advances
  \<^verbatim>\<open>currLocation\<close> in the same way. The list holds the position of the first byte of each
  entry's header block.
\<close>

fun headerOffsets :: "int64 \<Rightarrow> S3Obj list \<Rightarrow> S3Obj list \<Rightarrow> int64 list" where
  "headerOffsets start (header # headers) (obj # objectList) =
     start # headerOffsets (start + Size header + Size obj) headers objectList"
| "headerOffsets start headers objectList = []"

text \<open>
  \<^verbatim>\<open>buildFirstPart\<close>. The package variable \<^verbatim>\<open>pad\<close> is declared outside the sources and
  is a parameter, as are the bytes that \<^verbatim>\<open>tar.Writer.WriteHeader\<close> emits for the header
  (or the error it returns, on which the code calls \<^verbatim>\<open>log.Fatal\<close>) and the digest of
  \<^verbatim>\<open>AddData\<close>. The tar writer writes straight into the buffer, and \<^verbatim>\<open>tw.Flush()\<close> adds
  nothing to it: the body is written to the buffer directly, not through the writer.
  \<open>trailingPad\<close> is the value of \<^verbatim>\<open>padding\<close> after the \<^verbatim>\<open>if\<close>.
  \<^verbatim>\<open>
  buf.Write(pad)
  if err := tw.WriteHeader(hdr); err != nil { log.Fatal(err) }
  tw.Flush()
  buf.Write(csvData)
  padding := findPadding(int64(len(csvData)))
  if padding == 0 { padding = blockSize }
  lastBytes := make([]byte, padding)
  buf.Write(lastBytes)
  \<close>
\<close>

definition trailingPad :: "bytes \<Rightarrow> int64" where
  "trailingPad csvData =
     (let padding = findPadding (of_nat (length csvData))
      in if padding = 0 then blockSize else padding)"

definition buildFirstPart ::
  "(bytes \<Rightarrow> string) \<Rightarrow> bytes \<Rightarrow> (int64 \<Rightarrow> string + bytes) \<Rightarrow> bytes \<Rightarrow> string + S3Obj" where
  "buildFirstPart md5hex pad writeHeader csvData =
     (case writeHeader (of_nat (length csvData)) of
        Inl err \<Rightarrow> Inl err
      | Inr hdr \<Rightarrow>
          (let lastBytes = replicate (unat (trailingPad csvData)) (CHR 0x00);
               buf = pad @ hdr @ csvData @ lastBytes
           in Inr (AddData md5hex buf NewS3Obj)))"

text \<open>
  Entry lists whose layout stays within \<^verbatim>\<open>int64\<close>: no header and no entry has a negative
  size, and the position that the layout reaches from \<open>p\<close>, counted without wrap-around,
  is below \<open>2^63\<close>.
\<close>

fun layoutFits :: "int \<Rightarrow> S3Obj list \<Rightarrow> S3Obj list \<Rightarrow> bool" where
  "layoutFits p (header # headers) (obj # objectList) =
     (0 \<le> sint (Size header) \<and> 0 \<le> sint (Size obj)
      \<and> layoutFits (p + sint (Size header) + sint (Size obj)) headers objectList)"
| "layoutFits p headers objectList = (p < 2 ^ 63)"

section \<open>Reading objects (utils.go, getObject and getObjectRange)\<close>





section \<open>Batched deletion (utils.go, u_deleteObjectList and deleteObjectList)\<close>

text \<open>
  How a call ends: it returns its \<^verbatim>\<open>error\<close> (absent when nil), or \<^verbatim>\<open>log.Fatal\<close> prints
  its message and ends the process, or the call panics.
\<close>

datatype 'err ending = Returned "'err option" | LogFatal string | Panicked panic

record DeleteObjectsInput =
  delete_Bucket :: string
  delete_Quiet :: bool
  delete_Objects :: "string list"

text \<open>
  The store client is a parameter with a state of its own: \<open>client\<close> takes the state and
  a request to either a request error or the per-object failures of the response (the
  keys of \<^verbatim>\<open>response.Errors\<close>), and the next state.
  \<^verbatim>\<open>
  response, err := client.DeleteObjects(ctx, params)
  if err != nil { return err }
  if len(response.Errors) > 0 { log.Fatal("Error deleting objects") }
  return nil
  \<close>
  \<^verbatim>\<open>params\<close> takes its bucket from \<^verbatim>\<open>objectList[0]\<close>, which panics on an empty list.
  The client that \<^verbatim>\<open>GetS3Client\<close> finds in the context is the parameter.
\<close>

type_synonym ('s, 'err) deleteClient = "'s \<Rightarrow> DeleteObjectsInput \<Rightarrow> ('err + string list) \<times> 's"

definition u_deleteObjectList ::
  "('s, 'err) deleteClient \<Rightarrow> 's \<Rightarrow> S3Obj list \<Rightarrow> 'err ending \<times> 's" where
  "u_deleteObjectList client s objectList =
     (let objects = map Key objectList
      in case objectList of
           [] \<Rightarrow> (Panicked IndexOutOfRange, s)
         | first # rest \<Rightarrow>
             (let params = \<lparr>delete_Bucket = Bucket first, delete_Quiet = True,
                            delete_Objects = objects\<rparr>
              in case client s params of
                   (Inl err, s') \<Rightarrow> (Returned (Some err), s')
                 | (Inr errors, s') \<Rightarrow>
                     if length errors > 0 then (LogFatal ''Error deleting objects'', s')
                     else (Returned None, s')))"

text \<open>
  \<^verbatim>\<open>
  batch := 1000
  for i := 0; i < len(objectList); i += batch {
    start := i
    end := i + batch
    if end >= len(objectList) { end = len(objectList) }
    part := objectList[start:end]
    err := _deleteObjectList(ctx, opts, part)
    if err != nil { return err }
  }
  return nil
  \<close>
\<close>

function deleteObjectListFrom ::
  "('s, 'err) deleteClient \<Rightarrow> 's \<Rightarrow> S3Obj list \<Rightarrow> nat \<Rightarrow> 'err ending \<times> 's" where
  "deleteObjectListFrom client s objectList i =
     (let batch = 1000
      in if i < length objectList
         then (let start = i;
                   end' = i + batch;
                   end' = (if end' \<ge> length objectList then length objectList else end');
                   part = take (end' - start) (drop start objectList)
               in case u_deleteObjectList client s part of
                    (Returned None, s') \<Rightarrow> deleteObjectListFrom client s' objectList (i + batch)
                  | (ending, s') \<Rightarrow> (ending, s'))
         else (Returned None, s))"
  by pat_completeness auto
termination
  by (relation "measure (\<lambda>(client, s, objectList, i). length objectList - i)") auto

declare deleteObjectListFrom.simps [simp del]

definition deleteObjectList ::
  "('s, 'err) deleteClient \<Rightarrow> 's \<Rightarrow> S3Obj list \<Rightarrow> 'err ending \<times> 's" where
  "deleteObjectList client s objectList = deleteObjectListFrom client s objectList 0"

section \<open>Example inputs\<close>

text \<open>
  A store for the examples: it records the keys of every deletion request it receives, and
  reports a per-object failure for each requested key equal to \<open>bad\<close>.
\<close>

definition failingStore :: "string \<Rightarrow> (string list list, string) deleteClient" where
  "failingStore bad s params =
     (Inr (filter (\<lambda>k. k = bad) (delete_Objects params)), s @ [delete_Objects params])"

definition object :: "string \<Rightarrow> int64 \<Rightarrow> string \<Rightarrow> S3Obj" where
  "object key size' etag = NewS3Obj\<lparr>Key := key, ETag := etag, Size := size', Bucket := ''bucket''\<rparr>"

definition header :: "int64 \<Rightarrow> S3Obj" where
  "header size' = NewS3Obj\<lparr>Size := size'\<rparr>"

text \<open>
  Two entries with long keys, of 8192 and 512 bytes, each with a header of one block: their
  trial manifest is exactly 512 bytes long, and with the manifest in front the offset of
  the second entry grows from four digits to five.
\<close>

definition growingHeaders :: "S3Obj list" where
  "growingHeaders = [header 512, header 512]"

definition growingEntries :: "S3Obj list" where
  "growingEntries =
     [object (replicate 212 (CHR ''a'')) 8192 ''0123456789abcdef0123456789abcdef'',
      object (replicate 213 (CHR ''b'')) 512 ''fedcba9876543210fedcba9876543210'']"

text \<open>
  Three entries whose sizes add up beyond \<open>2^63\<close>: the offsets of the second and the third
  wrap around to negative numbers, and with the manifest in front the third offset loses a
  digit. Their trial manifest is 513 bytes long.
\<close>

definition wrappingHeaders :: "S3Obj list" where
  "wrappingHeaders = [header 512, header 512, header 512]"

definition wrappingEntries :: "S3Obj list" where
  "wrappingEntries =
     [object (replicate 136 (CHR ''a'')) 9223372036854775807 ''e1'',
      object (replicate 136 (CHR ''b'')) 8223372036854773761 ''e2'',
      object (replicate 140 (CHR ''c'')) 0 ''e3'']"

section \<open>Facts about 64-bit integers\<close>

lemma sint_word_of_int64:
  "- 9223372036854775808 \<le> k \<Longrightarrow> k < 9223372036854775808 \<Longrightarrow> sint (word_of_int k :: int64) = k"
  by (simp add: signed_of_int signed_take_bit_int_eq_self)

lemma sint_int64_bounds:
  "- 9223372036854775808 \<le> sint (w :: int64)" "sint (w :: int64) < 9223372036854775808"
  using sint_ge [of w] sint_lt [of w] by simp_all

section \<open>Block padding: the least padding to the next multiple of 512\<close>

lemma findPadding_take_bit: "findPadding offset = take_bit 9 (- offset)"
proof -
  have "(blockSize - 1 :: int64) = mask 9"
    by (simp add: blockSize_def mask_eq_exp_minus_1)
  then show ?thesis
    by (simp add: findPadding_def take_bit_eq_mask)
qed

lemma findPadding_of_int: "findPadding offset = word_of_int ((- sint offset) mod 512)"
proof -
  have "- offset = (word_of_int (- sint offset) :: int64)"
    by simp
  then have "findPadding offset = take_bit 9 (word_of_int (- sint offset) :: int64)"
    by (simp only: findPadding_take_bit)
  also have "\<dots> = word_of_int (take_bit 9 (- sint offset))"
    by (simp add: take_bit_of_int del: of_int_minus of_int_sint)
  finally show ?thesis
    by (simp only: take_bit_eq_mod) simp
qed

lemma sint_findPadding: "sint (findPadding offset) = (- sint offset) mod 512"
proof -
  have "0 \<le> (- sint offset) mod 512" "(- sint offset) mod 512 < 512"
    by simp_all
  then show ?thesis
    unfolding findPadding_of_int by (intro sint_word_of_int64) linarith+
qed


text \<open>
  Claim C5. For every offset, and so for every non-negative one, \<open>findPadding offset\<close>
  read as a signed number lies in \<open>[0, 511]\<close>, added to the offset it gives a multiple of
  512, and no smaller non-negative number does; \<open>findPadding 0 = 0\<close>,
  \<open>findPadding 1 = 511\<close> and \<open>findPadding 512 = 0\<close>.
\<close>

theorem findPadding_least:
  "0 \<le> sint (findPadding offset) \<and> sint (findPadding offset) \<le> 511
   \<and> (sint offset + sint (findPadding offset)) mod 512 = 0
   \<and> (\<forall>n. 0 \<le> n \<and> (sint offset + n) mod 512 = 0 \<longrightarrow> sint (findPadding offset) \<le> n)
   \<and> findPadding 0 = 0 \<and> findPadding 1 = 511 \<and> findPadding 512 = 0"
proof -
  let ?p = "(- sint offset) mod 512"
  have a: "0 \<le> ?p" "?p \<le> 511" by simp_all
  have b: "(sint offset + ?p) mod 512 = 0"
    by (simp add: mod_add_right_eq)
  have c: "?p \<le> n" if "0 \<le> n" "(sint offset + n) mod 512 = 0" for n
  proof -
    have "(512::int) dvd n - (- sint offset)"
      using that(2) by (simp add: mod_eq_0_iff_dvd add.commute)
    then have "n mod 512 = ?p"
      by (simp only: mod_eq_dvd_iff)
    moreover have "n mod 512 \<le> n"
      using that(1) by (simp add: zmod_le_nonneg_dividend)
    ultimately show ?thesis by simp
  qed
  have d: "findPadding 0 = 0 \<and> findPadding 1 = 511 \<and> findPadding 512 = 0"
    by (simp add: findPadding_def blockSize_def)
  show ?thesis
    using a b c d by (simp add: sint_findPadding)
qed

theorem findPadding_least_witness:
  "(0 :: int) \<le> 511 \<and> (sint (1 :: int64) + 511) mod 512 = 0 \<and> sint (findPadding 1) \<le> 511"
  using findPadding_least [of 1] by simp

section \<open>The part range\<close>

lemma partSizeMin_eq: "partSizeMin = 5242880"
  by (simp add: partSizeMin_def KB_def)

lemma partSizeMax_eq: "partSizeMax = 5368709120"
  by (simp add: partSizeMax_def KB_def)

lemma int_div_le_dividend: "0 \<le> a \<Longrightarrow> 0 < b \<Longrightarrow> a div b \<le> (a :: int)"
  using zdiv_mono2 [of a 1 b] by simp

lemma sint_go_quot_nonneg:
  assumes "0 \<le> sint a" "0 < sint b"
  shows "sint (go_quot a b) = sint a div sint b"
proof -
  have q: "sint a sdiv sint b = sint a div sint b"
    using assms by (simp add: signed_divide_int_def sgn_if)
  have "0 \<le> sint a div sint b" "sint a div sint b \<le> sint a"
    using assms by (simp_all add: pos_imp_zdiv_nonneg_iff int_div_le_dividend)
  with sint_int64_bounds(2) [of a] show ?thesis
    unfolding go_quot_def q by (intro sint_word_of_int64) linarith+
qed

lemma sint_go_quot_neg:
  assumes "sint a < 0" "0 < sint b"
  shows "sint (go_quot a b) \<le> 0"
proof -
  have q: "sint a sdiv sint b = - (- sint a div sint b)"
    using assms by (simp add: signed_divide_int_def sgn_if)
  have "0 \<le> - sint a div sint b" "- sint a div sint b \<le> - sint a"
    using assms by (simp_all add: pos_imp_zdiv_nonneg_iff int_div_le_dividend)
  with sint_int64_bounds(1) [of a] have "sint (go_quot a b) = - (- sint a div sint b)"
    unfolding go_quot_def q by (intro sint_word_of_int64) linarith+
  with \<open>0 \<le> - sint a div sint b\<close> show ?thesis by simp
qed

lemma sint_minus_one:
  assumes "0 < sint (n :: int64)"
  shows "sint (n - 1) = sint n - 1"
proof -
  have "n - 1 = word_of_int (sint n - 1)"
    by simp
  moreover have "sint (word_of_int (sint n - 1) :: int64) = sint n - 1"
    using assms sint_int64_bounds(2) [of n] by (intro sint_word_of_int64) linarith+
  ultimately show ?thesis by simp
qed

lemma sint_plus_one:
  assumes "sint (n :: int64) < 9223372036854775807"
  shows "sint (n + 1) = sint n + 1"
proof -
  have "n + 1 = word_of_int (sint n + 1)"
    by simp
  moreover have "sint (word_of_int (sint n + 1) :: int64) = sint n + 1"
    using assms sint_int64_bounds(1) [of n] by (intro sint_word_of_int64) linarith+
  ultimately show ?thesis by simp
qed

lemma int64_of_sint: "sint (n :: int64) = k \<Longrightarrow> n = word_of_int k"
  by auto

lemma sint_eq_0_iff: "sint (n :: int64) = 0 \<longleftrightarrow> n = 0"
proof
  assume "sint n = 0"
  moreover have "n = word_of_int (sint n)" by simp
  ultimately show "n = 0" by simp
qed simp

text \<open>Below the minimum part size the first loop runs down to a zero divisor.\<close>

lemma nPartsMaxLoop_small:
  assumes "sint curSize < 5242880"
  shows "0 \<le> sint n \<Longrightarrow> nat (sint n) = j \<Longrightarrow> nPartsMaxLoop curSize n = Inl DivideByZero"
proof (induction j arbitrary: n)
  case 0
  then have "n = 0" by (simp add: sint_eq_0_iff)
  then show ?case by (subst nPartsMaxLoop.simps) (simp add: go_div_def)
next
  case (Suc j)
  then have pos: "0 < sint n" by linarith
  then have nz: "n \<noteq> 0" by auto
  have "sint (go_quot curSize n) < 5242880"
  proof (cases "0 \<le> sint curSize")
    case True
    then have "sint (go_quot curSize n) = sint curSize div sint n"
      using pos by (rule sint_go_quot_nonneg)
    also have "\<dots> \<le> sint curSize"
      using True pos by (rule int_div_le_dividend)
    finally show ?thesis using assms by linarith
  next
    case False
    then have "sint (go_quot curSize n) \<le> 0"
      using pos by (intro sint_go_quot_neg) linarith+
    then show ?thesis by linarith
  qed
  then have lt: "go_quot curSize n <s partSizeMin"
    by (simp add: word_sless_alt partSizeMin_eq)
  have "nPartsMaxLoop curSize (n - 1) = Inl DivideByZero"
    using Suc.prems pos by (intro Suc.IH) (simp_all add: sint_minus_one)
  with nz lt show ?case
    by (subst nPartsMaxLoop.simps) (simp add: go_div_def)
qed

lemma int_le_div_iff: "0 < b \<Longrightarrow> q \<le> a div b \<longleftrightarrow> q * b \<le> (a :: int)"
proof
  assume b: "0 < b" and q: "q \<le> a div b"
  have "a div b * b + a mod b = a" by simp
  moreover have "0 \<le> a mod b" using b by simp
  ultimately have "a div b * b \<le> a" by linarith
  moreover have "q * b \<le> a div b * b"
    using q b by (simp add: mult_right_mono)
  ultimately show "q * b \<le> a" by linarith
next
  assume b: "0 < b" and "q * b \<le> a"
  then have "(q * b) div b \<le> a div b"
    by (intro zdiv_mono1)
  then show "q \<le> a div b" using b by simp
qed

lemma int_div_less_iff: "0 < b \<Longrightarrow> a div b < q \<longleftrightarrow> (a :: int) < q * b"
  using int_le_div_iff [of b q a] by linarith

text \<open>From the minimum part size on, the first loop stops at the largest admissible count.\<close>

lemma nPartsMaxLoop_ok:
  assumes "5242880 \<le> sint curSize"
  shows "nat (sint n) = Suc j \<Longrightarrow>
    \<exists>m. nPartsMaxLoop curSize n = Inr m \<and> 1 \<le> sint m \<and> sint m \<le> sint n
      \<and> 5242880 \<le> sint curSize div sint m
      \<and> (\<forall>k. sint m < k \<and> k \<le> sint n \<longrightarrow> sint curSize div k < 5242880)"
proof (induction j arbitrary: n)
  case 0
  then have n1: "sint n = 1" by linarith
  then have n: "n = 1" by (auto dest: int64_of_sint)
  have "sint (go_quot curSize 1) = sint curSize div 1"
    using assms by (intro sint_go_quot_nonneg[THEN trans]) simp_all
  then have "\<not> go_quot curSize 1 <s partSizeMin"
    using assms by (simp add: word_sless_alt partSizeMin_eq)
  then have "nPartsMaxLoop curSize 1 = Inr 1"
    by (subst nPartsMaxLoop.simps) (simp add: go_div_def)
  with assms show ?case unfolding n by simp
next
  case (Suc j)
  then have pos: "0 < sint n" by linarith
  then have nz: "n \<noteq> 0" by auto
  have c0: "0 \<le> sint curSize" using assms by linarith
  have q: "sint (go_quot curSize n) = sint curSize div sint n"
    using c0 pos by (rule sint_go_quot_nonneg)
  show ?case
  proof (cases "sint curSize div sint n < 5242880")
    case True
    then have lt: "go_quot curSize n <s partSizeMin"
      by (simp add: word_sless_alt partSizeMin_eq q)
    have "nat (sint (n - 1)) = Suc j"
      using Suc.prems pos by (simp add: sint_minus_one)
    from Suc.IH [OF this] obtain m where m:
      "nPartsMaxLoop curSize (n - 1) = Inr m" "1 \<le> sint m" "sint m \<le> sint (n - 1)"
      "5242880 \<le> sint curSize div sint m"
      "\<forall>k. sint m < k \<and> k \<le> sint (n - 1) \<longrightarrow> sint curSize div k < 5242880"
      by blast
    have "nPartsMaxLoop curSize n = Inr m"
      using nz lt m(1) by (subst nPartsMaxLoop.simps) (simp add: go_div_def)
    moreover have "\<forall>k. sint m < k \<and> k \<le> sint n \<longrightarrow> sint curSize div k < 5242880"
    proof (intro allI impI)
      fix k assume k: "sint m < k \<and> k \<le> sint n"
      show "sint curSize div k < 5242880"
      proof (cases "k = sint n")
        case True with \<open>sint curSize div sint n < 5242880\<close> show ?thesis by simp
      next
        case False
        with k have "k \<le> sint (n - 1)" using pos by (simp add: sint_minus_one)
        with m(5) k show ?thesis by blast
      qed
    qed
    ultimately show ?thesis
      using m(2,3,4) pos by (auto simp: sint_minus_one)
  next
    case False
    then have "\<not> go_quot curSize n <s partSizeMin"
      by (simp add: word_sless_alt partSizeMin_eq q)
    then have "nPartsMaxLoop curSize n = Inr n"
      using nz by (subst nPartsMaxLoop.simps) (simp add: go_div_def)
    with False pos show ?thesis by auto
  qed
qed

text \<open>For a non-negative size the second loop stops at the least admissible count.\<close>

lemma nPartsMinLoop_ok:
  assumes c0: "0 \<le> sint curSize"
  shows "1 \<le> sint n \<Longrightarrow> sint n \<le> sint curSize div 5368709120 + 1 \<Longrightarrow>
    (\<forall>k. 1 \<le> k \<and> k < sint n \<longrightarrow> 5368709120 < sint curSize div k) \<Longrightarrow>
    nat (sint curSize div 5368709120 + 1 - sint n) = d \<Longrightarrow>
    \<exists>m. nPartsMinLoop curSize n = Inr m \<and> sint n \<le> sint m
      \<and> sint curSize div sint m \<le> 5368709120
      \<and> (\<forall>k. 1 \<le> k \<and> k < sint m \<longrightarrow> 5368709120 < sint curSize div k)"
proof (induction d arbitrary: n)
  case 0
  then have pos: "0 < sint n" by linarith
  then have nz: "n \<noteq> 0" by auto
  have q: "sint (go_quot curSize n) = sint curSize div sint n"
    using c0 pos by (rule sint_go_quot_nonneg)
  have "sint curSize div 5368709120 < sint n"
    using 0 by linarith
  then have "sint curSize < sint n * 5368709120"
    by (simp add: int_div_less_iff)
  then have "sint curSize div sint n < 5368709120"
    using pos by (simp add: int_div_less_iff mult.commute)
  then have "\<not> partSizeMax <s go_quot curSize n"
    by (simp add: word_sless_alt partSizeMax_eq q)
  then have "nPartsMinLoop curSize n = Inr n"
    using nz by (subst nPartsMinLoop.simps) (simp add: go_div_def)
  with \<open>sint curSize div sint n < 5368709120\<close> 0 show ?case by auto
next
  case (Suc d)
  then have pos: "0 < sint n" by linarith
  then have nz: "n \<noteq> 0" by auto
  have q: "sint (go_quot curSize n) = sint curSize div sint n"
    using c0 pos by (rule sint_go_quot_nonneg)
  have small: "sint n < 9223372036854775807"
  proof -
    have "sint curSize div 5368709120 \<le> 9223372036854775808 div 5368709120"
      using sint_int64_bounds(2) [of curSize] by (intro zdiv_mono1) simp_all
    with Suc.prems show ?thesis by simp
  qed
  show ?case
  proof (cases "5368709120 < sint curSize div sint n")
    case True
    then have gt: "partSizeMax <s go_quot curSize n"
      by (simp add: word_sless_alt partSizeMax_eq q)
    have n1: "sint (n + 1) = sint n + 1"
      using small by (rule sint_plus_one)
    have "\<forall>k. 1 \<le> k \<and> k < sint (n + 1) \<longrightarrow> 5368709120 < sint curSize div k"
    proof (intro allI impI)
      fix k assume k: "1 \<le> k \<and> k < sint (n + 1)"
      show "5368709120 < sint curSize div k"
      proof (cases "k = sint n")
        case True with \<open>5368709120 < sint curSize div sint n\<close> show ?thesis by simp
      next
        case False
        with k n1 have "k < sint n" by linarith
        with Suc.prems(3) k show ?thesis by blast
      qed
    qed
    moreover have "1 \<le> sint (n + 1)" "sint (n + 1) \<le> sint curSize div 5368709120 + 1"
      "nat (sint curSize div 5368709120 + 1 - sint (n + 1)) = d"
      using Suc.prems n1 by simp_all
    ultimately obtain m where m:
      "nPartsMinLoop curSize (n + 1) = Inr m" "sint (n + 1) \<le> sint m"
      "sint curSize div sint m \<le> 5368709120"
      "\<forall>k. 1 \<le> k \<and> k < sint m \<longrightarrow> 5368709120 < sint curSize div k"
      using Suc.IH [of "n + 1"] by blast
    have "nPartsMinLoop curSize n = Inr m"
      using nz gt m(1) by (subst nPartsMinLoop.simps) (simp add: go_div_def)
    with m n1 show ?thesis by auto
  next
    case False
    then have "\<not> partSizeMax <s go_quot curSize n"
      by (simp add: word_sless_alt partSizeMax_eq q)
    then have "nPartsMinLoop curSize n = Inr n"
      using nz by (subst nPartsMinLoop.simps) (simp add: go_div_def)
    with False Suc.prems show ?thesis by auto
  qed
qed

lemma nPartsMinLoop_from_1:
  assumes c0: "0 \<le> sint curSize"
  shows "\<exists>m. nPartsMinLoop curSize 1 = Inr m \<and> 1 \<le> sint m
      \<and> sint curSize div sint m \<le> 5368709120
      \<and> (\<forall>k. 1 \<le> k \<and> k < sint m \<longrightarrow> 5368709120 < sint curSize div k)"
proof -
  have "0 \<le> sint curSize div 5368709120"
    using c0 by (simp add: pos_imp_zdiv_nonneg_iff)
  then show ?thesis
    using nPartsMinLoop_ok [OF c0, of 1] by simp
qed

lemma sint_partsLimit: "sint partsLimit = 10000"
  by (simp add: partsLimit_def)

lemma findMinMaxPartRange_below_partSizeMin:
  assumes "objectSize <s partSizeMin"
  shows "findMinMaxPartRange objectSize = Inl DivideByZero"
proof -
  have "sint objectSize < 5242880"
    using assms by (simp add: word_sless_alt partSizeMin_eq)
  then have "nPartsMaxLoop objectSize partsLimit = Inl DivideByZero"
    by (rule nPartsMaxLoop_small) (simp_all add: sint_partsLimit)
  then show ?thesis
    by (simp add: findMinMaxPartRange_def)
qed

lemma sint_go_quot_2:
  assumes "0 \<le> sint a"
  shows "sint (go_quot a 2) = sint a div 2"
  using sint_go_quot_nonneg [OF assms, of 2] by simp

text \<open>
  Claim C4, as amended. For every \<open>objectSize\<close> of at least 5 MiB,
  \<open>findMinMaxPartRange\<close> returns \<open>(minParts, maxParts, midpoint)\<close> with
  \<open>1 \<le> minParts\<close>, \<open>1 \<le> maxParts \<le> 10000\<close>, \<open>objectSize / maxParts \<ge> 5 MiB\<close>,
  \<open>objectSize / minParts \<le> 5 GiB\<close> and \<open>midpoint = maxParts / 2\<close>; and
  \<open>minParts \<le> maxParts\<close> whenever \<open>objectSize / 10000 \<le> 5 GiB\<close>.
\<close>

theorem findMinMaxPartRange_plan:
  assumes "partSizeMin \<le>s objectSize"
  shows "\<exists>minParts maxParts mid.
    findMinMaxPartRange objectSize = Inr (minParts, maxParts, mid)
    \<and> 1 \<le> sint minParts \<and> 1 \<le> sint maxParts \<and> sint maxParts \<le> 10000
    \<and> 5242880 \<le> sint objectSize div sint maxParts
    \<and> sint objectSize div sint minParts \<le> 5368709120
    \<and> sint mid = sint maxParts div 2
    \<and> (sint objectSize div 10000 \<le> 5368709120 \<longrightarrow> sint minParts \<le> sint maxParts)"
proof -
  have c: "5242880 \<le> sint objectSize"
    using assms by (simp add: word_sle_eq partSizeMin_eq)
  then have c0: "0 \<le> sint objectSize" by linarith
  obtain M where M: "nPartsMaxLoop objectSize partsLimit = Inr M" "1 \<le> sint M"
    "sint M \<le> 10000" "5242880 \<le> sint objectSize div sint M"
    "\<forall>k. sint M < k \<and> k \<le> 10000 \<longrightarrow> sint objectSize div k < 5242880"
    using nPartsMaxLoop_ok [OF c, of partsLimit 9999] by (auto simp: sint_partsLimit)
  obtain m where m: "nPartsMinLoop objectSize 1 = Inr m" "1 \<le> sint m"
    "sint objectSize div sint m \<le> 5368709120"
    "\<forall>k. 1 \<le> k \<and> k < sint m \<longrightarrow> 5368709120 < sint objectSize div k"
    using nPartsMinLoop_from_1 [OF c0] by blast
  have r: "findMinMaxPartRange objectSize = Inr (m, M, go_quot M 2)"
    by (simp add: findMinMaxPartRange_def M(1) m(1))
  have mid: "sint (go_quot M 2) = sint M div 2"
    using M(2) by (intro sint_go_quot_2) linarith
  have le: "sint m \<le> sint M" if big: "sint objectSize div 10000 \<le> 5368709120"
  proof -
    have "sint objectSize div sint M \<le> 5368709120"
    proof (cases "sint M = 10000")
      case True with big show ?thesis by simp
    next
      case False
      with M(3) have "sint M < sint M + 1 \<and> sint M + 1 \<le> 10000" by linarith
      with M(5) have "sint objectSize div (sint M + 1) < 5242880" by blast
      then have "sint objectSize < 5242880 * (sint M + 1)"
        using M(2) by (simp add: int_div_less_iff)
      then have "sint objectSize < 5368709121 * sint M"
        using M(2) by (simp add: algebra_simps)
      then have "sint objectSize div sint M < 5368709121"
        using M(2) by (simp add: int_div_less_iff)
      then show ?thesis by linarith
    qed
    show ?thesis
    proof (rule ccontr)
      assume "\<not> sint m \<le> sint M"
      with M(2) have "1 \<le> sint M \<and> sint M < sint m" by linarith
      with m(4) have "5368709120 < sint objectSize div sint M" by blast
      with \<open>sint objectSize div sint M \<le> 5368709120\<close> show False by linarith
    qed
  qed
  show ?thesis
    using r m(2,3) M(2,3,4) mid le by blast
qed

theorem findMinMaxPartRange_plan_witness:
  "partSizeMin \<le>s (104857600 :: int64) \<and> sint (104857600 :: int64) div 10000 \<le> 5368709120
   \<and> (\<exists>minParts maxParts mid.
    findMinMaxPartRange 104857600 = Inr (minParts, maxParts, mid)
    \<and> 1 \<le> sint minParts \<and> sint minParts \<le> sint maxParts \<and> sint maxParts \<le> 10000
    \<and> 5242880 \<le> sint (104857600 :: int64) div sint maxParts
    \<and> sint (104857600 :: int64) div sint minParts \<le> 5368709120
    \<and> sint mid = sint maxParts div 2)"
proof -
  have h: "partSizeMin \<le>s (104857600 :: int64)"
    by (simp add: partSizeMin_eq)
  have b: "sint (104857600 :: int64) div 10000 \<le> 5368709120"
    by simp
  show ?thesis
    using h b findMinMaxPartRange_plan [OF h] by blast
qed

text \<open>
  Against claim C4 as stated: for an object of 10000 parts of 5 GiB + 1 bytes, the least
  part count that respects the maximum part size is 10001, above the part limit.
\<close>

theorem findMinMaxPartRange_minParts_exceeds_maxParts:
  "findMinMaxPartRange 53687091210000 = Inr (10001, 10000, 5000)
   \<and> \<not> (10001 :: int64) \<le>s 10000"
proof -
  let ?c = "53687091210000 :: int64"
  have sc: "sint ?c = 53687091210000" by simp
  have q: "sint (go_quot ?c partsLimit) = 5368709121"
    using sint_go_quot_nonneg [of ?c partsLimit] by (simp add: sint_partsLimit)
  then have "\<not> go_quot ?c partsLimit <s partSizeMin"
    by (simp add: word_sless_alt partSizeMin_eq)
  then have M: "nPartsMaxLoop ?c partsLimit = Inr 10000"
    by (subst nPartsMaxLoop.simps) (simp add: go_div_def partsLimit_def)
  obtain m where m: "nPartsMinLoop ?c 1 = Inr m" "1 \<le> sint m"
    "sint ?c div sint m \<le> 5368709120"
    "\<forall>k. 1 \<le> k \<and> k < sint m \<longrightarrow> 5368709120 < sint ?c div k"
    using nPartsMinLoop_from_1 [of ?c] by auto
  have "10000 < sint m"
  proof (rule ccontr)
    assume "\<not> 10000 < sint m"
    then have "sint ?c div 10000 \<le> sint ?c div sint m"
      using m(2) by (intro zdiv_mono2) simp_all
    with m(3) show False by simp
  qed
  moreover have "sint m \<le> 10001"
  proof (rule ccontr)
    assume "\<not> sint m \<le> 10001"
    then have "1 \<le> (10001 :: int) \<and> 10001 < sint m" by simp
    with m(4) have "5368709120 < sint ?c div 10001" by blast
    then show False by simp
  qed
  ultimately have "sint m = 10001" by linarith
  then have "m = 10001" by (auto dest: int64_of_sint)
  moreover have "go_quot 10000 2 = (5000 :: int64)"
    by (simp add: go_quot_def signed_divide_int_def)
  ultimately show ?thesis
    by (simp add: findMinMaxPartRange_def M m(1))
qed

text \<open>
  Claim C8 at \<open>objectSize = -1\<close>: the function checks nothing, its first loop counts the
  part number down to zero, and the call ends in the panic of a division by zero.
\<close>

theorem findMinMaxPartRange_negative_panics:
  "findMinMaxPartRange (- 1) = Inl DivideByZero"
  by (rule findMinMaxPartRange_below_partSizeMin) (simp add: partSizeMin_eq word_sless_alt)

section \<open>The first part: the trailing pad of the manifest entry\<close>

lemma uint_eq_sint_nonneg:
  assumes "0 \<le> sint (w :: int64)"
  shows "uint w = sint w"
proof -
  have "uint w = sint w mod 2 ^ 64"
    using uint_sint [of w] by (simp add: take_bit_eq_mod)
  moreover have "sint w < 2 ^ 64"
    using sint_int64_bounds(2) [of w] by simp
  ultimately show ?thesis
    using assms by simp
qed

lemma sint_mod_512: "sint (w :: int64) mod 512 = uint w mod 512"
proof -
  have "uint w = sint w mod 2 ^ 64"
    using uint_sint [of w] by (simp add: take_bit_eq_mod)
  then have "uint w mod 512 = (sint w mod 2 ^ 64) mod 512" by simp
  also have "\<dots> = sint w mod 512"
    by (simp add: mod_mod_cancel)
  finally show ?thesis by simp
qed

lemma sint_of_nat_mod_512: "sint (of_nat n :: int64) mod 512 = int n mod 512"
proof -
  have "unat (of_nat n :: int64) = n mod 2 ^ 64"
    by (simp add: unat_of_nat)
  then have "uint (of_nat n :: int64) = int (n mod 2 ^ 64)"
    by (simp only: uint_nat)
  then have "uint (of_nat n :: int64) = int n mod 2 ^ 64"
    by (simp add: zmod_int)
  then have "uint (of_nat n :: int64) mod 512 = int n mod 512"
    by (simp add: mod_mod_cancel)
  then show ?thesis by (simp add: sint_mod_512)
qed

lemma sint_findPadding_of_nat:
  "sint (findPadding (of_nat n)) = (- int n) mod 512"
proof -
  have "(- sint (of_nat n :: int64)) mod 512 = (- (sint (of_nat n :: int64) mod 512)) mod 512"
    by (simp add: mod_minus_eq)
  also have "\<dots> = (- (int n mod 512)) mod 512"
    by (simp only: sint_of_nat_mod_512)
  also have "\<dots> = (- int n) mod 512"
    by (simp add: mod_minus_eq)
  finally show ?thesis by (simp add: sint_findPadding)
qed

lemma sint_trailingPad:
  "sint (trailingPad csvData) =
     (if (- int (length csvData)) mod 512 = 0 then 512 else (- int (length csvData)) mod 512)"
proof -
  let ?p = "findPadding (of_nat (length csvData))"
  have "?p = 0 \<longleftrightarrow> sint ?p = 0"
    by (simp add: sint_eq_0_iff)
  then show ?thesis
    by (simp add: trailingPad_def Let_def blockSize_def sint_findPadding_of_nat)
qed

lemma uint_trailingPad: "uint (trailingPad csvData) = sint (trailingPad csvData)"
proof -
  have "0 \<le> sint (trailingPad csvData)"
    by (simp add: sint_trailingPad)
  then show ?thesis
    by (rule uint_eq_sint_nonneg)
qed

lemma trailingPad_bounds:
  "1 \<le> unat (trailingPad csvData) \<and> unat (trailingPad csvData) \<le> 512"
proof -
  have "0 \<le> (- int (length csvData)) mod 512" "(- int (length csvData)) mod 512 < 512"
    by simp_all
  then have "1 \<le> sint (trailingPad csvData) \<and> sint (trailingPad csvData) \<le> 512"
    unfolding sint_trailingPad by (simp split: if_splits) linarith
  then have "1 \<le> uint (trailingPad csvData) \<and> uint (trailingPad csvData) \<le> 512"
    by (simp only: uint_trailingPad)
  then show ?thesis
    by (simp only: uint_nat) linarith
qed

lemma trailingPad_aligned:
  "(length csvData + unat (trailingPad csvData)) mod 512 = 0"
proof -
  have "(int (length csvData) + sint (trailingPad csvData)) mod 512 = 0"
  proof (cases "(- int (length csvData)) mod 512 = 0")
    case True
    then have "int (length csvData) mod 512 = 0"
      by (metis mod_minus_eq minus_zero mod_0 add.inverse_inverse)
    with True show ?thesis
      by (simp add: sint_trailingPad)
  next
    case False
    then show ?thesis
      by (simp add: sint_trailingPad mod_add_right_eq)
  qed
  then have "(int (length csvData) + uint (trailingPad csvData)) mod 512 = 0"
    by (simp only: uint_trailingPad)
  then have "int ((length csvData + unat (trailingPad csvData)) mod 512) = 0"
    by (simp add: zmod_int)
  then show ?thesis by simp
qed

text \<open>
  Claim C6. When the tar writer emits a header of 512 bytes, \<open>buildFirstPart\<close> returns
  the leading pad, the header, the manifest body and a trailing run of zero bytes; that run
  has \<open>findPadding (len csvData)\<close> bytes, or 512 when that padding is zero, so its length
  is in \<open>[1, 512]\<close>, and header, body and trailing run together are a multiple of 512.
\<close>

theorem buildFirstPart_trailing_pad:
  assumes "writeHeader (of_nat (length csvData)) = Inr hdr" and "length hdr = 512"
  shows "\<exists>obj. buildFirstPart md5hex pad writeHeader csvData = Inr obj
    \<and> Data obj = pad @ hdr @ csvData @ replicate (unat (trailingPad csvData)) (CHR 0x00)
    \<and> trailingPad csvData =
        (if findPadding (of_nat (length csvData)) = 0 then 512
         else findPadding (of_nat (length csvData)))
    \<and> 1 \<le> unat (trailingPad csvData) \<and> unat (trailingPad csvData) \<le> 512
    \<and> (length hdr + length csvData + unat (trailingPad csvData)) mod 512 = 0"
proof -
  have "(length hdr + length csvData + unat (trailingPad csvData)) mod 512
      = (512 + (length csvData + unat (trailingPad csvData))) mod 512"
    using assms(2) by (simp add: add.assoc)
  also have "\<dots> = 0"
    using trailingPad_aligned [of csvData] by (simp del: add_2_eq_Suc)
  finally have total: "(length hdr + length csvData + unat (trailingPad csvData)) mod 512 = 0" .
  have "buildFirstPart md5hex pad writeHeader csvData
      = Inr (AddData md5hex (pad @ hdr @ csvData @ replicate (unat (trailingPad csvData)) (CHR 0x00))
          NewS3Obj)"
    using assms(1) by (simp add: buildFirstPart_def)
  moreover have "trailingPad csvData =
        (if findPadding (of_nat (length csvData)) = 0 then 512
         else findPadding (of_nat (length csvData)))"
    by (simp add: trailingPad_def blockSize_def Let_def)
  ultimately show ?thesis
    using trailingPad_bounds [of csvData] total by (simp add: AddData_def)
qed

theorem buildFirstPart_trailing_pad_witness:
  "(\<lambda>n. Inr (replicate 512 (CHR ''h''))) (of_nat (length ''k,1024,3,e'') :: int64)
      = (Inr (replicate 512 (CHR ''h'')) :: string + bytes)
   \<and> length (replicate 512 (CHR ''h'')) = 512
   \<and> (\<exists>obj. buildFirstPart (\<lambda>d. []) [] (\<lambda>n. Inr (replicate 512 (CHR ''h''))) ''k,1024,3,e''
          = Inr obj
        \<and> length (Data obj) = 1024)"
proof -
  let ?w = "\<lambda>n :: int64. (Inr (replicate 512 (CHR ''h'')) :: string + bytes)"
  have h1: "?w (of_nat (length ''k,1024,3,e'')) = Inr (replicate 512 (CHR ''h''))"
    by simp
  have h2: "length (replicate 512 (CHR ''h'')) = 512"
    by simp
  have "trailingPad ''k,1024,3,e'' = 502"
    by (simp add: trailingPad_def findPadding_def blockSize_def)
  then show ?thesis
    using buildFirstPart_trailing_pad [of ?w "''k,1024,3,e''", OF h1 h2, of "\<lambda>d. []" "[]"]
    by auto
qed

section \<open>Decimal renderings\<close>

lemma decimal_nonempty: "decimal n \<noteq> []"
  by (subst decimal.simps) simp

lemma digit_in_digits: "n < 10 \<Longrightarrow> digits ! n \<in> set digits"
  by (rule nth_mem) (simp add: digits_def)

lemma decimal_digits: "set (decimal n) \<subseteq> set digits"
proof (induction n rule: decimal.induct)
  case (1 n)
  show ?case
  proof (cases "n < 10")
    case True
    then show ?thesis
      using digit_in_digits [of n] by (subst decimal.simps) simp
  next
    case False
    have "n mod 10 < 10" by simp
    then have "digits ! (n mod 10) \<in> set digits"
      by (rule digit_in_digits)
    with False 1 show ?thesis
      by (subst decimal.simps) simp
  qed
qed



lemma fmt_d_nonempty: "fmt_d x \<noteq> []"
  by (simp add: fmt_d_def decimal_nonempty)



section \<open>Reading objects: the range request\<close>



section \<open>Batched deletion\<close>

lemma batch_part:
  assumes "i < length objectList"
  shows "take ((if length objectList \<le> i + 1000 then length objectList else i + 1000) - i)
           (drop i objectList) = take 1000 (drop i objectList)"
  using assms by (auto simp: not_le)

lemma u_deleteObjectList_step:
  assumes "part = first # rest"
    and "client s \<lparr>delete_Bucket = Bucket first, delete_Quiet = True,
           delete_Objects = map Key part\<rparr> = (response, s')"
  shows "u_deleteObjectList client s part =
     (case response of
        Inl err \<Rightarrow> (Returned (Some err), s')
      | Inr errors \<Rightarrow>
          if errors \<noteq> [] then (LogFatal ''Error deleting objects'', s')
          else (Returned None, s'))"
  using assms(2) unfolding assms(1)
  by (simp add: u_deleteObjectList_def split: sum.splits)

text \<open>
  Claim C9, as amended. At any batch of \<open>deleteObjectList\<close> (the loop at index \<open>i\<close>, the
  store in state \<open>s\<close>): when the store answers the request for the batch with per-object
  failures, the call does not return to its caller, since \<^verbatim>\<open>log.Fatal\<close> ends the process
  with the fixed message \<^verbatim>\<open>Error deleting objects\<close>, which names no key, and the store is
  left in the state after that request, so no later batch is sent; a request error is
  returned to the caller at once; only after a response without failures does the loop
  go on with the next batch.
\<close>

theorem deleteObjectList_batch:
  assumes "i < length objectList"
    and "client s \<lparr>delete_Bucket = Bucket (objectList ! i), delete_Quiet = True,
           delete_Objects = map Key (take 1000 (drop i objectList))\<rparr> = (response, s')"
  shows "deleteObjectListFrom client s objectList i =
     (case response of
        Inl err \<Rightarrow> (Returned (Some err), s')
      | Inr errors \<Rightarrow>
          if errors \<noteq> [] then (LogFatal ''Error deleting objects'', s')
          else deleteObjectListFrom client s' objectList (i + 1000))"
proof -
  obtain first rest where part: "take 1000 (drop i objectList) = first # rest"
    using assms(1) by (cases "take 1000 (drop i objectList)") auto
  then have first: "first = objectList ! i"
    using assms(1) by (metis hd_drop_conv_nth hd_take list.sel(1) zero_less_numeral)
  have "u_deleteObjectList client s (take 1000 (drop i objectList)) =
     (case response of
        Inl err \<Rightarrow> (Returned (Some err), s')
      | Inr errors \<Rightarrow>
          if errors \<noteq> [] then (LogFatal ''Error deleting objects'', s')
          else (Returned None, s'))"
    using part assms(2) unfolding first by (rule u_deleteObjectList_step)
  then show ?thesis
    using assms(1)
    by (subst deleteObjectListFrom.simps) (simp add: Let_def batch_part split: sum.splits)
qed

theorem deleteObjectList_batch_witness:
  "1000 < length (replicate 1000 (object ''a'' 1 ''x'') @ [object ''b'' 1 ''y''])
   \<and> failingStore ''b'' [replicate 1000 ''a'']
        \<lparr>delete_Bucket = Bucket ((replicate 1000 (object ''a'' 1 ''x'') @ [object ''b'' 1 ''y'']) ! 1000),
           delete_Quiet = True,
           delete_Objects = map Key (take 1000 (drop 1000
             (replicate 1000 (object ''a'' 1 ''x'') @ [object ''b'' 1 ''y''])))\<rparr>
      = (Inr [''b''], [replicate 1000 ''a'', [''b'']])
   \<and> deleteObjectListFrom (failingStore ''b'') [replicate 1000 ''a'']
        (replicate 1000 (object ''a'' 1 ''x'') @ [object ''b'' 1 ''y'']) 1000
      = (LogFatal ''Error deleting objects'', [replicate 1000 ''a'', [''b'']])"
proof -
  let ?objs = "replicate 1000 (object ''a'' 1 ''x'') @ [object ''b'' 1 ''y'']"
  have h1: "1000 < length ?objs"
    by simp
  have h2: "failingStore ''b'' [replicate 1000 ''a'']
        \<lparr>delete_Bucket = Bucket (?objs ! 1000), delete_Quiet = True,
           delete_Objects = map Key (take 1000 (drop 1000 ?objs))\<rparr>
      = (Inr [''b''], [replicate 1000 ''a'', [''b'']])"
    by (simp add: failingStore_def object_def NewS3Obj_def nth_append)
  show ?thesis
    using h1 h2
      deleteObjectList_batch [where i = 1000 and objectList = ?objs
        and client = "failingStore ''b''" and s = "[replicate 1000 ''a'']"
        and response = "Inr [''b'']" and s' = "[replicate 1000 ''a'', [''b'']]", OF h1 h2]
    by simp
qed

text \<open>
  Against claim C9 as stated: the store fails to delete the key \<open>b\<close> of a batch of two,
  and the call ends in \<^verbatim>\<open>log.Fatal\<close> with the fixed message instead of returning an error
  that names \<open>b\<close>.
\<close>

theorem deleteObjectList_exits_without_keys:
  "deleteObjectList (failingStore ''b'') [] [object ''a'' 1 ''x'', object ''b'' 1 ''y'']
     = (LogFatal ''Error deleting objects'', [[''a'', ''b'']])"
  by (simp add: deleteObjectList_def deleteObjectListFrom.simps u_deleteObjectList_def
      failingStore_def object_def NewS3Obj_def)

section \<open>The manifest records\<close>

lemma manifestLines_short:
  "length headers < length objectList \<Longrightarrow>
     manifestLines currLocation headers objectList = Inl IndexOutOfRange"
  by (induction currLocation headers objectList rule: manifestLines.induct) (auto simp: Let_def)

lemma manifestLines_records:
  "length objectList \<le> length headers \<Longrightarrow>
   \<exists>manifest. manifestLines currLocation headers objectList = Inr manifest
     \<and> length manifest = length objectList
     \<and> (\<forall>i<length objectList. manifest ! i =
           [Key (objectList ! i),
            fmt_d (headerOffsets currLocation headers objectList ! i + Size (headers ! i)),
            fmt_d (Size (objectList ! i)),
            ETag (objectList ! i)])"
proof (induction currLocation headers objectList rule: manifestLines.induct)
  case (1 currLocation headers)
  then show ?case by simp
next
  case (2 currLocation obj objectList)
  then show ?case by simp
next
  case (3 currLocation header headers obj objectList)
  let ?next = "currLocation + Size header + Size obj"
  have "length objectList \<le> length headers"
    using "3.prems" by simp
  from "3.IH" [OF refl refl refl this] obtain rest where rest: "manifestLines ?next headers objectList = Inr rest"
    "length rest = length objectList"
    "\<forall>i<length objectList. rest ! i =
           [Key (objectList ! i),
            fmt_d (headerOffsets ?next headers objectList ! i + Size (headers ! i)),
            fmt_d (Size (objectList ! i)),
            ETag (objectList ! i)]"
    by blast
  let ?line = "[Key obj, fmt_d (currLocation + Size header), fmt_d (Size obj), ETag obj]"
  have "manifestLines currLocation (header # headers) (obj # objectList) = Inr (?line # rest)"
    using rest(1) by (simp add: Let_def)
  moreover have "(?line # rest) ! i =
           [Key ((obj # objectList) ! i),
            fmt_d (headerOffsets currLocation (header # headers) (obj # objectList) ! i
              + Size ((header # headers) ! i)),
            fmt_d (Size ((obj # objectList) ! i)),
            ETag ((obj # objectList) ! i)]" if "i < length (obj # objectList)" for i
    using that rest(3) by (cases i) simp_all
  ultimately show ?case
    using rest(2) by simp
qed

text \<open>
  Claim C2, as amended. When \<open>headers\<close> has a header for each entry, the manifest of
  \<open>createCSVManifest\<close> has one record for each entry, in order, and the offset in the
  record of entry \<open>i\<close> is the position of the first byte of the entry's header block plus
  the size of that header, \<open>headers[i].Size\<close>: the position where the entry's data begins.
  The first header begins at \<open>offset + 512\<close> padded to the next multiple of 512.
\<close>

theorem createCSVManifest_records_data_start:
  assumes "length objectList \<le> length headers"
  shows "\<exists>manifest. createCSVManifest offset headers objectList = Inr (csvWriteAll manifest)
     \<and> length manifest = length objectList
     \<and> (\<forall>i<length objectList. manifest ! i =
           [Key (objectList ! i),
            fmt_d (headerOffsets (offset + 512 + findPadding (offset + 512)) headers objectList ! i
              + Size (headers ! i)),
            fmt_d (Size (objectList ! i)),
            ETag (objectList ! i)])"
  using manifestLines_records [OF assms, of "offset + 512 + findPadding (offset + 512)"]
  by (auto simp: createCSVManifest_def Let_def)

theorem createCSVManifest_records_data_start_witness:
  "length [object ''a'' 100 ''e1'', object ''b'' 7 ''e2''] \<le> length [header 512, header 1024]
   \<and> createCSVManifest 0 [header 512, header 1024] [object ''a'' 100 ''e1'', object ''b'' 7 ''e2'']
       = Inr (csvWriteAll [[''a'', ''1024'', ''100'', ''e1''], [''b'', ''2148'', ''7'', ''e2'']])
   \<and> headerOffsets (0 + 512 + findPadding (0 + 512)) [header 512, header 1024]
         [object ''a'' 100 ''e1'', object ''b'' 7 ''e2''] = [512, 1124]"
proof -
  let ?hs = "[header 512, header 1024]"
  let ?os = "[object ''a'' 100 ''e1'', object ''b'' 7 ''e2'']"
  have h: "length ?os \<le> length ?hs" by simp
  have pad: "findPadding 512 = 0"
    by (simp add: findPadding_def blockSize_def)
  have offs: "headerOffsets (0 + 512 + findPadding (0 + 512)) ?hs ?os = [512, 1124]"
    by (simp add: pad header_def object_def NewS3Obj_def)
  obtain manifest where m: "createCSVManifest 0 ?hs ?os = Inr (csvWriteAll manifest)"
    "length manifest = length ?os"
    "\<forall>i<length ?os. manifest ! i =
           [Key (?os ! i),
            fmt_d (headerOffsets (0 + 512 + findPadding (0 + 512)) ?hs ?os ! i + Size (?hs ! i)),
            fmt_d (Size (?os ! i)),
            ETag (?os ! i)]"
    using createCSVManifest_records_data_start [OF h, of 0] by blast
  from m(3) have "manifest ! 0 = [''a'', ''1024'', ''100'', ''e1'']"
    "manifest ! 1 = [''b'', ''2148'', ''7'', ''e2'']"
    unfolding offs
    by (simp_all add: header_def object_def NewS3Obj_def fmt_d_def decimal.simps digits_def)
  with m(2) have "manifest = [[''a'', ''1024'', ''100'', ''e1''], [''b'', ''2148'', ''7'', ''e2'']]"
    by (intro nth_equalityI) (auto simp: less_Suc_eq numeral_2_eq_2)
  with m(1) have "createCSVManifest 0 ?hs ?os
       = Inr (csvWriteAll [[''a'', ''1024'', ''100'', ''e1''], [''b'', ''2148'', ''7'', ''e2'']])"
    by simp
  with offs h show ?thesis by blast
qed

text \<open>
  Against claim C2 as stated: for one entry with a header of 512 bytes and seed 0, the
  header block begins at byte 512, and the record holds 1024, where the data begins.
\<close>

theorem createCSVManifest_offset_is_not_header_start:
  "createCSVManifest 0 [header 512] [object ''a'' 100 ''e1''] = Inr ''a,1024,100,e1\<newline>''
   \<and> headerOffsets (0 + 512 + findPadding (0 + 512)) [header 512] [object ''a'' 100 ''e1'']
       = [512]"
  by (simp add: createCSVManifest_def findPadding_def blockSize_def header_def object_def
      NewS3Obj_def fmt_d_def decimal.simps digits_def csvWriteAll_def csvWrite_def csvField_def
      fieldNeedsQuotes_def spaceRunes_def)

section \<open>The loop of the manifest\<close>

lemma createCSVManifest_short:
  "length headers < length objectList \<Longrightarrow>
     createCSVManifest offset headers objectList = Inl IndexOutOfRange"
  by (simp add: createCSVManifest_def Let_def manifestLines_short)

lemma createCSVManifest_returns:
  assumes "length objectList \<le> length headers"
  shows "\<exists>data. createCSVManifest offset headers objectList = Inr data"
  using manifestLines_records [OF assms, of "offset + 512 + findPadding (offset + 512)"]
  by (auto simp: createCSVManifest_def Let_def)

lemma createCSVManifest_returns_iff:
  "(\<exists>data. createCSVManifest offset headers objectList = Inr data)
     \<longleftrightarrow> length objectList \<le> length headers"
  using createCSVManifest_returns [of objectList headers offset]
    createCSVManifest_short [of headers objectList offset]
  by (cases "length objectList \<le> length headers") auto

text \<open>The values of \<open>estimate\<close>: the first one, and each next one below the one before.\<close>

lemma estimates_hd: "hd (estimates estimate headers objectList) = estimate"
  by (subst estimates.simps) simp

lemma estimates_nonempty: "estimates estimate headers objectList \<noteq> []"
  by (subst estimates.simps) simp

lemma estimates_decreasing:
  "sorted_wrt (\<lambda>a b. b <s a) (estimates estimate headers objectList)
   \<and> (\<forall>e\<in>set (estimates estimate headers objectList). e \<le>s estimate)"
proof (induction estimate headers objectList rule: estimates.induct)
  case (1 estimate headers objectList)
  show ?case
  proof (cases "createCSVManifest estimate headers objectList")
    case (Inl e)
    then show ?thesis by (subst (1 2) estimates.simps) simp
  next
    case (Inr data)
    let ?l = "of_nat (length data) :: int64"
    let ?lp = "?l + findPadding ?l"
    show ?thesis
    proof (cases "estimate \<le>s ?lp")
      case True
      with Inr show ?thesis by (subst (1 2) estimates.simps) (simp add: Let_def)
    next
      case False
      then have lt: "?lp <s estimate"
        by (simp add: signed.not_le)
      have eq: "estimates estimate headers objectList = estimate # estimates ?lp headers objectList"
        using Inr False by (subst estimates.simps) (simp add: Let_def)
      have ih: "sorted_wrt (\<lambda>a b. b <s a) (estimates ?lp headers objectList)
          \<and> (\<forall>e\<in>set (estimates ?lp headers objectList). e \<le>s ?lp)"
        using 1 [OF Inr refl refl False] .
      then have "\<forall>e\<in>set (estimates ?lp headers objectList). e <s estimate"
        using lt by (auto intro: signed.le_less_trans)
      with ih show ?thesis
        unfolding eq by (auto intro: signed.less_imp_le)
    qed
  qed
qed

lemma buildManifestLoop_last:
  "buildManifestLoop estimate headers objectList
     = createCSVManifest (last (estimates estimate headers objectList)) headers objectList"
proof (induction estimate headers objectList rule: estimates.induct)
  case (1 estimate headers objectList)
  show ?case
  proof (cases "createCSVManifest estimate headers objectList")
    case (Inl e)
    then show ?thesis
      by (subst buildManifestLoop.simps, subst estimates.simps) simp
  next
    case (Inr data)
    let ?l = "of_nat (length data) :: int64"
    let ?lp = "?l + findPadding ?l"
    show ?thesis
    proof (cases "estimate \<le>s ?lp")
      case True
      with Inr show ?thesis
        by (subst buildManifestLoop.simps, subst estimates.simps) (simp add: Let_def)
    next
      case False
      have "buildManifestLoop estimate headers objectList = buildManifestLoop ?lp headers objectList"
        using Inr False by (subst buildManifestLoop.simps) (simp add: Let_def)
      moreover have "estimates estimate headers objectList
          = estimate # estimates ?lp headers objectList"
        using Inr False by (subst estimates.simps) (simp add: Let_def)
      ultimately show ?thesis
        using 1 [OF Inr refl refl False] by (simp add: estimates_nonempty)
    qed
  qed
qed


section \<open>The manifests of the example inputs\<close>

lemma csvField_plain: "\<not> fieldNeedsQuotes field \<Longrightarrow> csvField field = field"
  by (simp add: csvField_def)

lemma length_csvWrite_record:
  "length (csvWrite [a, b, c, d])
     = length (csvField a) + length (csvField b) + length (csvField c) + length (csvField d) + 4"
  by (simp add: csvWrite_def)

lemma fieldNeedsQuotes_replicate:
  assumes "c \<noteq> CHR 0x0A" "c \<noteq> CHR 0x0D" "c \<noteq> CHR 0x22" "c \<noteq> CHR 0x2C" "c \<noteq> CHR 0x5C"
    and "\<forall>r\<in>set spaceRunes. hd r \<noteq> c"
  shows "\<not> fieldNeedsQuotes (replicate n c)"
proof (cases n)
  case 0
  then show ?thesis by (simp add: fieldNeedsQuotes_def)
next
  case (Suc m)
  have "take (length r) (replicate (Suc m) c) \<noteq> r" if "r \<in> set spaceRunes" for r
  proof -
    from that have "r \<noteq> []" by (auto simp: spaceRunes_def)
    then obtain x xs where r: "r = x # xs" by (cases r) auto
    with that assms(6) have "x \<noteq> c" by auto
    with r show ?thesis by simp
  qed
  then have "\<not> list_ex (\<lambda>r. take (length r) (replicate (Suc m) c) = r) spaceRunes"
    by (auto simp: list_ex_iff)
  moreover have "\<not> list_ex (\<lambda>x. x = CHR 0x0A \<or> x = CHR 0x0D \<or> x = CHR 0x22 \<or> x = CHR 0x2C)
      (replicate (Suc m) c)"
    using assms(1-4) by (auto simp: list_ex_iff)
  moreover have "replicate (Suc m) c \<noteq> [CHR 0x5C, CHR ''.'']"
    using assms(5) by simp
  ultimately show ?thesis
    unfolding Suc fieldNeedsQuotes_def by simp
qed

lemma csvField_key_a: "csvField (replicate n (CHR ''a'')) = replicate n (CHR ''a'')"
  by (rule csvField_plain, rule fieldNeedsQuotes_replicate) (simp_all add: spaceRunes_def)

lemma csvField_key_b: "csvField (replicate n (CHR ''b'')) = replicate n (CHR ''b'')"
  by (rule csvField_plain, rule fieldNeedsQuotes_replicate) (simp_all add: spaceRunes_def)

lemma csvField_tags:
  "csvField ''0123456789abcdef0123456789abcdef'' = ''0123456789abcdef0123456789abcdef''"
  "csvField ''fedcba9876543210fedcba9876543210'' = ''fedcba9876543210fedcba9876543210''"
  by (simp_all add: csvField_def fieldNeedsQuotes_def spaceRunes_def)

lemma csvField_numbers:
  "csvField ''1024'' = ''1024''" "csvField ''1536'' = ''1536''" "csvField ''2048'' = ''2048''"
  "csvField ''9728'' = ''9728''" "csvField ''10240'' = ''10240''" "csvField ''10752'' = ''10752''"
  "csvField ''8192'' = ''8192''" "csvField ''512'' = ''512''"
  by (simp_all add: csvField_def fieldNeedsQuotes_def spaceRunes_def)

lemma growing_lines:
  "manifestLines 512 growingHeaders growingEntries
     = Inr [[replicate 212 (CHR ''a''), ''1024'', ''8192'', ''0123456789abcdef0123456789abcdef''],
            [replicate 213 (CHR ''b''), ''9728'', ''512'', ''fedcba9876543210fedcba9876543210'']]"
  "manifestLines 1024 growingHeaders growingEntries
     = Inr [[replicate 212 (CHR ''a''), ''1536'', ''8192'', ''0123456789abcdef0123456789abcdef''],
            [replicate 213 (CHR ''b''), ''10240'', ''512'', ''fedcba9876543210fedcba9876543210'']]"
  "manifestLines 1536 growingHeaders growingEntries
     = Inr [[replicate 212 (CHR ''a''), ''2048'', ''8192'', ''0123456789abcdef0123456789abcdef''],
            [replicate 213 (CHR ''b''), ''10752'', ''512'', ''fedcba9876543210fedcba9876543210'']]"
  by (simp_all add: growingHeaders_def growingEntries_def header_def object_def NewS3Obj_def
      fmt_d_def decimal.simps digits_def Let_def)

lemma growing_manifests:
  "createCSVManifest 0 growingHeaders growingEntries
     = Inr (replicate 212 (CHR ''a'') @ '',1024,8192,0123456789abcdef0123456789abcdef\<newline>''
          @ replicate 213 (CHR ''b'') @ '',9728,512,fedcba9876543210fedcba9876543210\<newline>'')"
  "createCSVManifest 512 growingHeaders growingEntries
     = Inr (replicate 212 (CHR ''a'') @ '',1536,8192,0123456789abcdef0123456789abcdef\<newline>''
          @ replicate 213 (CHR ''b'') @ '',10240,512,fedcba9876543210fedcba9876543210\<newline>'')"
  "createCSVManifest 1024 growingHeaders growingEntries
     = Inr (replicate 212 (CHR ''a'') @ '',2048,8192,0123456789abcdef0123456789abcdef\<newline>''
          @ replicate 213 (CHR ''b'') @ '',10752,512,fedcba9876543210fedcba9876543210\<newline>'')"
  by (simp_all add: createCSVManifest_def Let_def findPadding_def blockSize_def growing_lines
      csvWriteAll_def csvWrite_def csvField_key_a csvField_key_b csvField_tags csvField_numbers)

section \<open>The manifest of the example inputs is not a fixed point\<close>

lemma padded_lengths:
  "findPadding 512 = 0" "findPadding 513 = 511" "findPadding 1024 = 0" "findPadding 1025 = 511"
  "findPadding 1536 = 0"
  by (simp_all add: findPadding_def blockSize_def)

lemma growing_estimates: "estimates 512 growingHeaders growingEntries = [512]"
  by (subst estimates.simps) (simp add: growing_manifests Let_def padded_lengths)

lemma growing_result:
  "u_buildManifest growingHeaders growingEntries
     = createCSVManifest 512 growingHeaders growingEntries"
  by (simp add: u_buildManifest_def growing_manifests(1) buildManifestLoop_last growing_estimates)

text \<open>
  Claim C3 at the two entries of \<open>growingEntries\<close>: \<open>u_buildManifest\<close> returns the manifest
  it built for the estimate 512; that manifest is 513 bytes long, 1024 when padded, and
  \<open>createCSVManifest\<close> with the seed 1024 gives other offsets, so other bytes.
\<close>

theorem buildManifest_not_idempotent:
  "\<exists>data. u_buildManifest growingHeaders growingEntries = Inr data
     \<and> of_nat (length data) + findPadding (of_nat (length data)) = (1024 :: int64)
     \<and> createCSVManifest 1024 growingHeaders growingEntries \<noteq> Inr data"
  by (simp add: growing_result growing_manifests padded_lengths)




lemma csvField_key_c: "csvField (replicate n (CHR ''c'')) = replicate n (CHR ''c'')"
  by (rule csvField_plain, rule fieldNeedsQuotes_replicate) (simp_all add: spaceRunes_def)

lemma csvField_wrapping:
  "csvField ''e1'' = ''e1''" "csvField ''e2'' = ''e2''" "csvField ''e3'' = ''e3''"
  "csvField ''0'' = ''0''"
  "csvField ''9223372036854775807'' = ''9223372036854775807''"
  "csvField ''8223372036854773761'' = ''8223372036854773761''"
  "csvField ''-9223372036854774273'' = ''-9223372036854774273''"
  "csvField ''-9223372036854773249'' = ''-9223372036854773249''"
  "csvField ''-9223372036854773761'' = ''-9223372036854773761''"
  "csvField ''-1000000000000000000'' = ''-1000000000000000000''"
  "csvField ''-999999999999998976'' = ''-999999999999998976''"
  "csvField ''-999999999999999488'' = ''-999999999999999488''"
  by (simp_all add: csvField_def fieldNeedsQuotes_def spaceRunes_def)

lemma wrapping_lines:
  "manifestLines 512 wrappingHeaders wrappingEntries
     = Inr [[replicate 136 (CHR ''a''), ''1024'', ''9223372036854775807'', ''e1''],
            [replicate 136 (CHR ''b''), ''-9223372036854774273'', ''8223372036854773761'', ''e2''],
            [replicate 140 (CHR ''c''), ''-1000000000000000000'', ''0'', ''e3'']]"
  "manifestLines 1536 wrappingHeaders wrappingEntries
     = Inr [[replicate 136 (CHR ''a''), ''2048'', ''9223372036854775807'', ''e1''],
            [replicate 136 (CHR ''b''), ''-9223372036854773249'', ''8223372036854773761'', ''e2''],
            [replicate 140 (CHR ''c''), ''-999999999999998976'', ''0'', ''e3'']]"
  "manifestLines 1024 wrappingHeaders wrappingEntries
     = Inr [[replicate 136 (CHR ''a''), ''1536'', ''9223372036854775807'', ''e1''],
            [replicate 136 (CHR ''b''), ''-9223372036854773761'', ''8223372036854773761'', ''e2''],
            [replicate 140 (CHR ''c''), ''-999999999999999488'', ''0'', ''e3'']]"
  by (simp_all add: wrappingHeaders_def wrappingEntries_def header_def object_def NewS3Obj_def
      fmt_d_def decimal.simps digits_def Let_def)

lemma wrapping_lengths:
  "map_sum id length (createCSVManifest 0 wrappingHeaders wrappingEntries) = Inr 513"
  "map_sum id length (createCSVManifest 513 wrappingHeaders wrappingEntries) = Inr 512"
  "map_sum id length (createCSVManifest 512 wrappingHeaders wrappingEntries) = Inr 512"
  by (simp_all add: createCSVManifest_def Let_def padded_lengths wrapping_lines
      csvWriteAll_def csvWrite_def csvField_key_a csvField_key_b csvField_key_c csvField_numbers
      csvField_wrapping)

lemma map_sum_length_Inr:
  "map_sum id length r = Inr n \<Longrightarrow> \<exists>data. r = Inr data \<and> length data = n"
  by (cases r) auto

text \<open>
  Against claim C1 as stated: for the entries of \<open>wrappingEntries\<close> the estimate starts at
  513 and the next iteration runs with 512.
\<close>

theorem buildManifest_estimate_decreases:
  "(\<exists>trial. createCSVManifest 0 wrappingHeaders wrappingEntries = Inr trial
      \<and> (of_nat (length trial) :: int64) = 513)
   \<and> estimates 513 wrappingHeaders wrappingEntries = [513, 512]
   \<and> (512 :: int64) <s 513"
proof -
  obtain trial where t: "createCSVManifest 0 wrappingHeaders wrappingEntries = Inr trial"
    "length trial = 513"
    using map_sum_length_Inr [OF wrapping_lengths(1)] by blast
  obtain d1 where d1: "createCSVManifest 513 wrappingHeaders wrappingEntries = Inr d1"
    "length d1 = 512"
    using map_sum_length_Inr [OF wrapping_lengths(2)] by blast
  obtain d2 where d2: "createCSVManifest 512 wrappingHeaders wrappingEntries = Inr d2"
    "length d2 = 512"
    using map_sum_length_Inr [OF wrapping_lengths(3)] by blast
  have "estimates 512 wrappingHeaders wrappingEntries = [512]"
    by (subst estimates.simps) (simp add: d2 Let_def padded_lengths)
  then have "estimates 513 wrappingHeaders wrappingEntries = [513, 512]"
    by (subst estimates.simps) (simp add: d1 Let_def padded_lengths)
  with t show ?thesis by simp
qed

section \<open>The length of the manifest grows with the seed\<close>

lemma length_decimal:
  "length (decimal n) = (if n < 10 then 1 else length (decimal (n div 10)) + 1)"
  by (subst decimal.simps) simp

lemma length_decimal_mono: "m \<le> n \<Longrightarrow> length (decimal m) \<le> length (decimal n)"
proof (induction n arbitrary: m rule: decimal.induct)
  case (1 n)
  show ?case
  proof (cases "n < 10")
    case True
    with "1.prems" show ?thesis
      by (simp add: length_decimal [of m] length_decimal [of n])
  next
    case False
    show ?thesis
    proof (cases "m < 10")
      case True
      with False show ?thesis
        by (simp add: length_decimal [of m] length_decimal [of n])
    next
      case m: False
      have "m div 10 \<le> n div 10"
        using "1.prems" by (rule div_le_mono)
      with "1.IH" [OF False] have "length (decimal (m div 10)) \<le> length (decimal (n div 10))"
        by simp
      with False m show ?thesis
        by (simp add: length_decimal [of m] length_decimal [of n])
    qed
  qed
qed

lemma length_decimal_bound: "n < 10 ^ Suc k \<Longrightarrow> length (decimal n) \<le> Suc k"
proof (induction k arbitrary: n)
  case 0
  then show ?case by (simp add: length_decimal [of n])
next
  case (Suc k)
  show ?case
  proof (cases "n < 10")
    case True
    then show ?thesis by (simp add: length_decimal [of n])
  next
    case False
    have "n div 10 < 10 ^ Suc k"
      using Suc.prems by (simp add: less_mult_imp_div_less mult.commute)
    then have "length (decimal (n div 10)) \<le> Suc k"
      by (rule Suc.IH)
    with False show ?thesis by (simp add: length_decimal [of n])
  qed
qed

lemma length_decimal_pos: "1 \<le> length (decimal n)"
  by (simp add: length_decimal [of n])

lemma length_fmt_d_nonneg:
  assumes "0 \<le> sint x" "sint x \<le> sint y"
  shows "length (fmt_d x) \<le> length (fmt_d y)" "length (fmt_d y) \<le> length (fmt_d x) + 18"
proof -
  have x: "fmt_d x = decimal (nat (sint x))" and y: "fmt_d y = decimal (nat (sint y))"
    using assms by (simp_all add: fmt_d_def)
  show "length (fmt_d x) \<le> length (fmt_d y)"
    unfolding x y using assms by (intro length_decimal_mono) simp
  have "nat (sint y) < 10 ^ Suc 18"
    using sint_int64_bounds(2) [of y] by simp
  then have "length (fmt_d y) \<le> 19"
    unfolding y using length_decimal_bound [of "nat (sint y)" 18] by simp
  moreover have "1 \<le> length (fmt_d x)"
    unfolding x by (rule length_decimal_pos)
  ultimately show "length (fmt_d y) \<le> length (fmt_d x) + 18"
    by linarith
qed

lemma fmt_d_chars: "c \<in> set (fmt_d x) \<Longrightarrow> c = CHR ''-'' \<or> c \<in> set digits"
  using decimal_digits [of "nat (sint x)"] decimal_digits [of "nat (- sint x)"]
  unfolding fmt_d_def by (cases "sint x < 0") auto

lemma spaceRunes_first:
  "r \<in> set spaceRunes \<Longrightarrow> \<exists>y ys. r = y # ys \<and> y \<noteq> CHR ''-'' \<and> y \<notin> set digits"
  unfolding spaceRunes_def digits_def by (simp, elim disjE) simp_all

lemma special_not_digit:
  "c = CHR 0x0A \<or> c = CHR 0x0D \<or> c = CHR 0x22 \<or> c = CHR 0x2C \<or> c = CHR 0x5C
     \<Longrightarrow> c \<noteq> CHR ''-'' \<and> c \<notin> set digits"
  unfolding digits_def by (elim disjE) simp_all

lemma fieldNeedsQuotes_fmt_d: "\<not> fieldNeedsQuotes (fmt_d x)"
proof -
  obtain c cs where f: "fmt_d x = c # cs"
    using fmt_d_nonempty [of x] by (cases "fmt_d x") auto
  have chars: "d = CHR ''-'' \<or> d \<in> set digits" if "d \<in> set (c # cs)" for d
    using that fmt_d_chars [of d x] by (simp only: f)
  then have c: "c = CHR ''-'' \<or> c \<in> set digits" by simp
  have "take (length r) (c # cs) \<noteq> r" if "r \<in> set spaceRunes" for r
  proof
    assume t: "take (length r) (c # cs) = r"
    from spaceRunes_first [OF that] obtain y ys
      where r: "r = y # ys" and y: "y \<noteq> CHR ''-''" "y \<notin> set digits"
      by blast
    from t r have "c = y" by simp
    with c y show False by blast
  qed
  then have "\<not> list_ex (\<lambda>r. take (length r) (c # cs) = r) spaceRunes"
    unfolding list_ex_iff by blast
  moreover have "\<not> list_ex (\<lambda>c. c = CHR 0x0A \<or> c = CHR 0x0D \<or> c = CHR 0x22 \<or> c = CHR 0x2C) (c # cs)"
    unfolding list_ex_iff using chars special_not_digit by blast
  moreover have "c # cs \<noteq> [CHR 0x5C, CHR ''.'']"
    using c special_not_digit [of c] by blast
  ultimately show ?thesis
    unfolding f fieldNeedsQuotes_def by (simp only: if_False list.distinct simp_thms)
qed

lemma csvField_fmt_d: "csvField (fmt_d x) = fmt_d x"
  by (rule csvField_plain) (rule fieldNeedsQuotes_fmt_d)

lemma sint_add_no_overflow:
  assumes "- 9223372036854775808 \<le> sint a + sint b" "sint a + sint b < 9223372036854775808"
  shows "sint (a + b :: int64) = sint a + sint b"
proof -
  have "a + b = word_of_int (sint a + sint b)" by simp
  moreover have "sint (word_of_int (sint a + sint b) :: int64) = sint a + sint b"
    using assms by (rule sint_word_of_int64)
  ultimately show ?thesis by simp
qed

lemma sint_of_nat_small:
  assumes "int n < 9223372036854775808"
  shows "sint (of_nat n :: int64) = int n"
proof -
  have "(of_nat n :: int64) = word_of_int (int n)" by simp
  moreover have "sint (word_of_int (int n) :: int64) = int n"
    using assms by (intro sint_word_of_int64) simp_all
  ultimately show ?thesis by simp
qed

lemma layoutFits_bound: "layoutFits p headers objectList \<Longrightarrow> p < 9223372036854775808"
  by (induction p headers objectList rule: layoutFits.induct) auto

lemma layoutFits_mono:
  "layoutFits q headers objectList \<Longrightarrow> p \<le> q \<Longrightarrow> layoutFits p headers objectList"
  by (induction q headers objectList arbitrary: p rule: layoutFits.induct) auto

lemma length_csvWriteAll_Cons:
  "length (csvWriteAll ([a, b, c, d] # manifest))
     = length (csvField a) + length (csvField b) + length (csvField c) + length (csvField d) + 4
       + length (csvWriteAll manifest)"
  by (simp add: csvWriteAll_def csvWrite_def)

lemma manifestLines_length_mono:
  "layoutFits (sint c') headers objectList \<Longrightarrow> 0 \<le> sint c \<Longrightarrow> sint c \<le> sint c' \<Longrightarrow>
   manifestLines c headers objectList = Inr m \<Longrightarrow>
   manifestLines c' headers objectList = Inr m' \<Longrightarrow>
   length (csvWriteAll m) \<le> length (csvWriteAll m')
   \<and> length (csvWriteAll m') \<le> length (csvWriteAll m) + 18 * length objectList"
proof (induction c headers objectList arbitrary: c' m m' rule: manifestLines.induct)
  case (1 currLocation headers)
  then show ?case by simp
next
  case (2 currLocation obj objectList)
  then show ?case by simp
next
  case (3 currLocation header headers obj objectList)
  let ?h = "sint (Size header)" and ?s = "sint (Size obj)"
  have fits: "0 \<le> ?h" "0 \<le> ?s" "layoutFits (sint c' + ?h + ?s) headers objectList"
    using "3.prems"(1) by simp_all
  have top: "sint c' + ?h + ?s < 9223372036854775808"
    using fits(3) by (rule layoutFits_bound)
  have c1': "sint (c' + Size header) = sint c' + ?h"
    using fits top "3.prems"(2,3) by (intro sint_add_no_overflow) linarith+
  have c1: "sint (currLocation + Size header) = sint currLocation + ?h"
    using fits top "3.prems"(2,3) by (intro sint_add_no_overflow) linarith+
  have c2': "sint (c' + Size header + Size obj) = sint c' + ?h + ?s"
    unfolding c1' [symmetric] using fits top "3.prems"(2,3) c1'
    by (intro sint_add_no_overflow) linarith+
  have c2: "sint (currLocation + Size header + Size obj) = sint currLocation + ?h + ?s"
    unfolding c1 [symmetric] using fits top "3.prems"(2,3) c1
    by (intro sint_add_no_overflow) linarith+
  obtain rest where rest: "manifestLines (currLocation + Size header + Size obj) headers objectList
      = Inr rest"
    and m: "m = [Key obj, fmt_d (currLocation + Size header), fmt_d (Size obj), ETag obj] # rest"
    using "3.prems"(4) by (auto simp: Let_def split: sum.splits)
  obtain rest' where rest': "manifestLines (c' + Size header + Size obj) headers objectList
      = Inr rest'"
    and m': "m' = [Key obj, fmt_d (c' + Size header), fmt_d (Size obj), ETag obj] # rest'"
    using "3.prems"(5) by (auto simp: Let_def split: sum.splits)
  have ih: "length (csvWriteAll rest) \<le> length (csvWriteAll rest')
      \<and> length (csvWriteAll rest') \<le> length (csvWriteAll rest) + 18 * length objectList"
  proof (rule "3.IH" [OF refl refl refl _ _ _ rest rest'])
    show "layoutFits (sint (c' + Size header + Size obj)) headers objectList"
      using fits(3) by (simp only: c2')
    show "0 \<le> sint (currLocation + Size header + Size obj)"
      using fits "3.prems"(2) by (simp only: c2)
    show "sint (currLocation + Size header + Size obj) \<le> sint (c' + Size header + Size obj)"
      using "3.prems"(3) by (simp only: c2 c2')
  qed
  have "0 \<le> sint (currLocation + Size header)"
    "sint (currLocation + Size header) \<le> sint (c' + Size header)"
    using fits "3.prems"(2,3) by (simp_all only: c1 c1')
  then have f: "length (fmt_d (currLocation + Size header)) \<le> length (fmt_d (c' + Size header))"
    "length (fmt_d (c' + Size header)) \<le> length (fmt_d (currLocation + Size header)) + 18"
    by (rule length_fmt_d_nonneg)+
  show ?case
    unfolding m m' length_csvWriteAll_Cons csvField_fmt_d
    using ih f by simp
qed

lemma findPadding_range: "0 \<le> sint (findPadding x)" "sint (findPadding x) \<le> 511"
  by (simp_all add: sint_findPadding)

lemma createCSVManifest_Inr_lines:
  assumes "createCSVManifest offset headers objectList = Inr data"
  shows "\<exists>m. manifestLines (offset + 512 + findPadding (offset + 512)) headers objectList = Inr m
    \<and> data = csvWriteAll m"
  using assms by (auto simp: createCSVManifest_def Let_def split: sum.splits)

text \<open>
  When the layout stays within \<^verbatim>\<open>int64\<close>, the manifest for the seed is at least as long as
  the trial manifest, so the first iteration leaves the loop.
\<close>

lemma estimates_single:
  assumes trial: "createCSVManifest 0 headers objectList = Inr trial"
    and fits: "layoutFits (int (length trial) + 18 * int (length objectList) + 1024)
      headers objectList"
  shows "estimates (of_nat (length trial)) headers objectList = [of_nat (length trial)]"
proof -
  let ?seed = "of_nat (length trial) :: int64"
  let ?n = "int (length objectList)"
  have top: "int (length trial) + 18 * ?n + 1024 < 9223372036854775808"
    using fits by (rule layoutFits_bound)
  have seed: "sint ?seed = int (length trial)"
    using top by (intro sint_of_nat_small) linarith
  have s512: "sint (?seed + 512) = int (length trial) + 512"
    using sint_add_no_overflow [of ?seed 512] seed top by simp
  let ?start = "?seed + 512 + findPadding (?seed + 512)"
  have start: "sint ?start = int (length trial) + 512 + sint (findPadding (?seed + 512))"
    using sint_add_no_overflow [of "?seed + 512" "findPadding (?seed + 512)"]
      findPadding_range [of "?seed + 512"] s512 top by simp
  have start_le: "sint ?start \<le> int (length trial) + 18 * ?n + 1024"
    using start findPadding_range [of "?seed + 512"] by linarith
  have start_ge: "512 \<le> sint ?start"
    using start findPadding_range [of "?seed + 512"] by linarith
  have fits': "layoutFits (sint ?start) headers objectList"
    using fits start_le by (rule layoutFits_mono)
  have len: "length objectList \<le> length headers"
    using trial createCSVManifest_returns_iff [of 0 headers objectList] by blast
  obtain m0 where m0: "manifestLines (0 + 512 + findPadding (0 + 512)) headers objectList = Inr m0"
    "trial = csvWriteAll m0"
    using createCSVManifest_Inr_lines [OF trial] by blast
  have start0: "(0 + 512 + findPadding (0 + 512) :: int64) = 512"
    by (simp add: findPadding_def blockSize_def)
  obtain data where data: "createCSVManifest ?seed headers objectList = Inr data"
    using createCSVManifest_returns [OF len] by blast
  obtain m1 where m1: "manifestLines ?start headers objectList = Inr m1" "data = csvWriteAll m1"
    using createCSVManifest_Inr_lines [OF data] by blast
  have "length (csvWriteAll m0) \<le> length (csvWriteAll m1)
      \<and> length (csvWriteAll m1) \<le> length (csvWriteAll m0) + 18 * length objectList"
  proof (rule manifestLines_length_mono [OF fits' _ _ _ m1(1)])
    show "manifestLines 512 headers objectList = Inr m0"
      using m0(1) by (simp only: start0)
    show "0 \<le> sint (512 :: int64)" by simp
    show "sint (512 :: int64) \<le> sint ?start"
      using start_ge by simp
  qed
  then have grow: "length trial \<le> length data" "int (length data) \<le> int (length trial) + 18 * ?n"
    unfolding m0(2) m1(2) by simp_all
  let ?l = "of_nat (length data) :: int64"
  have l: "sint ?l = int (length data)"
    using grow(2) top by (intro sint_of_nat_small) linarith
  have "sint (?l + findPadding ?l) = int (length data) + sint (findPadding ?l)"
    using sint_add_no_overflow [of ?l "findPadding ?l"] findPadding_range [of ?l] l grow(2) top
    by simp
  then have "sint ?seed \<le> sint (?l + findPadding ?l)"
    using seed grow(1) findPadding_range(1) [of ?l] by linarith
  then have "?seed \<le>s ?l + findPadding ?l"
    by (simp only: word_sle_eq)
  then show ?thesis
    by (subst estimates.simps) (simp add: data Let_def)
qed

text \<open>So for such entry lists the returned manifest is the one built for the trial length.\<close>

lemma u_buildManifest_single:
  assumes "createCSVManifest 0 headers objectList = Inr trial"
    and "layoutFits (int (length trial) + 18 * int (length objectList) + 1024)
      headers objectList"
  shows "u_buildManifest headers objectList
      = createCSVManifest (of_nat (length trial)) headers objectList"
  using estimates_single [OF assms]
  by (simp add: u_buildManifest_def assms(1) buildManifestLoop_last)

section \<open>The estimate of the manifest loop\<close>

text \<open>
  Claim C1, as amended. For every entry list and headers for which the trial manifest is
  built, the loop of \<open>u_buildManifest\<close> ends and a manifest is returned, the one of the
  last iteration; the values of \<open>estimate\<close>, iteration after iteration, begin with the length
  of the trial manifest and are strictly decreasing, so none is above that first value.
  When no size is negative and the layout stays within \<^verbatim>\<open>int64\<close>, the first iteration
  already leaves the loop and \<open>estimate\<close> keeps its first value.
\<close>

theorem buildManifest_estimate_never_grows:
  assumes "createCSVManifest 0 headers objectList = Inr trial"
  shows "hd (estimates (of_nat (length trial)) headers objectList) = of_nat (length trial)
     \<and> sorted_wrt (\<lambda>a b. b <s a) (estimates (of_nat (length trial)) headers objectList)
     \<and> (\<forall>e\<in>set (estimates (of_nat (length trial)) headers objectList).
           e \<le>s of_nat (length trial))
     \<and> (\<exists>data. u_buildManifest headers objectList = Inr data
           \<and> createCSVManifest (last (estimates (of_nat (length trial)) headers objectList))
                headers objectList = Inr data)
     \<and> (layoutFits (int (length trial) + 18 * int (length objectList) + 1024) headers objectList
           \<longrightarrow> estimates (of_nat (length trial)) headers objectList = [of_nat (length trial)])"
proof -
  have "length objectList \<le> length headers"
    using assms createCSVManifest_returns_iff [of 0 headers objectList] by blast
  then obtain data where
    "createCSVManifest (last (estimates (of_nat (length trial)) headers objectList))
       headers objectList = Inr data"
    using createCSVManifest_returns by blast
  moreover from this have "u_buildManifest headers objectList = Inr data"
    by (simp add: u_buildManifest_def assms buildManifestLoop_last)
  ultimately show ?thesis
    using estimates_decreasing [of "of_nat (length trial)" headers objectList]
      estimates_single [OF assms]
    by (simp add: estimates_hd)
qed

theorem buildManifest_estimate_never_grows_witness:
  "(\<exists>trial. createCSVManifest 0 wrappingHeaders wrappingEntries = Inr trial
     \<and> (of_nat (length trial) :: int64) = 513
     \<and> sorted_wrt (\<lambda>a b. b <s a) (estimates (of_nat (length trial)) wrappingHeaders wrappingEntries)
     \<and> (\<exists>data. u_buildManifest wrappingHeaders wrappingEntries = Inr data
           \<and> createCSVManifest (last (estimates (of_nat (length trial)) wrappingHeaders wrappingEntries))
                wrappingHeaders wrappingEntries = Inr data))
   \<and> (\<exists>trial. createCSVManifest 0 growingHeaders growingEntries = Inr trial
     \<and> layoutFits (int (length trial) + 18 * int (length growingEntries) + 1024)
          growingHeaders growingEntries
     \<and> estimates (of_nat (length trial)) growingHeaders growingEntries = [of_nat (length trial)])"
proof -
  obtain trial where t: "createCSVManifest 0 wrappingHeaders wrappingEntries = Inr trial"
    "length trial = 513"
    using map_sum_length_Inr [OF wrapping_lengths(1)] by blast
  have first: "\<exists>trial. createCSVManifest 0 wrappingHeaders wrappingEntries = Inr trial
     \<and> (of_nat (length trial) :: int64) = 513
     \<and> sorted_wrt (\<lambda>a b. b <s a) (estimates (of_nat (length trial)) wrappingHeaders wrappingEntries)
     \<and> (\<exists>data. u_buildManifest wrappingHeaders wrappingEntries = Inr data
           \<and> createCSVManifest (last (estimates (of_nat (length trial)) wrappingHeaders wrappingEntries))
                wrappingHeaders wrappingEntries = Inr data)"
    using t buildManifest_estimate_never_grows [OF t(1)] by auto
  obtain trial' where t': "createCSVManifest 0 growingHeaders growingEntries = Inr trial'"
    "length trial' = 512"
    using growing_manifests(1) by simp
  have fits: "layoutFits (int (length trial') + 18 * int (length growingEntries) + 1024)
      growingHeaders growingEntries"
    by (simp add: t'(2) growingHeaders_def growingEntries_def header_def object_def NewS3Obj_def)
  have "estimates (of_nat (length trial')) growingHeaders growingEntries = [of_nat (length trial')]"
    using buildManifest_estimate_never_grows [OF t'(1)] fits by blast
  with t'(1) fits first show ?thesis by blast
qed

section \<open>Feeding the padded length back\<close>

lemma sint_add_mod_512: "sint (a + b :: int64) mod 512 = (sint a + sint b) mod 512"
proof -
  have "uint (a + b) mod 512 = ((uint a + uint b) mod 2 ^ 64) mod 512"
    by (simp add: uint_word_ariths)
  also have "\<dots> = (uint a + uint b) mod 512"
    by (simp add: mod_mod_cancel)
  also have "\<dots> = (uint a mod 512 + uint b mod 512) mod 512"
    by (simp add: mod_add_eq)
  also have "\<dots> = (sint a mod 512 + sint b mod 512) mod 512"
    by (simp only: sint_mod_512)
  also have "\<dots> = (sint a + sint b) mod 512"
    by (simp add: mod_add_eq)
  finally show ?thesis
    by (simp only: sint_mod_512)
qed

lemma findPadding_cong:
  assumes "sint a mod 512 = sint b mod 512"
  shows "findPadding a = findPadding b"
proof -
  have "(- sint a) mod 512 = (- (sint a mod 512)) mod 512"
    by (simp add: mod_minus_eq)
  also have "\<dots> = (- (sint b mod 512)) mod 512"
    by (simp only: assms)
  also have "\<dots> = (- sint b) mod 512"
    by (simp add: mod_minus_eq)
  finally show ?thesis
    by (simp only: findPadding_of_int)
qed

lemma findPadding_next_block: "findPadding (x + 512) = findPadding x"
  by (rule findPadding_cong) (simp add: sint_add_mod_512)

lemma findPadding_padded: "findPadding (x + findPadding x) = 0"
proof -
  have "sint (x + findPadding x) mod 512 = (sint x + (- sint x) mod 512) mod 512"
    by (simp only: sint_add_mod_512 sint_findPadding)
  also have "\<dots> = 0"
    by (simp add: mod_add_right_eq)
  finally have "sint (x + findPadding x) mod 512 = sint (0 :: int64) mod 512"
    by simp
  then have "findPadding (x + findPadding x) = findPadding 0"
    by (rule findPadding_cong)
  then show ?thesis
    by (simp add: findPadding_def)
qed

text \<open>A seed and the seed padded to the block boundary give the same manifest.\<close>

lemma createCSVManifest_padded_seed:
  "createCSVManifest (x + findPadding x) headers objectList
     = createCSVManifest x headers objectList"
proof -
  have "findPadding (x + findPadding x + 512) = 0"
    by (simp only: findPadding_next_block findPadding_padded)
  moreover have "findPadding (x + 512) = findPadding x"
    by (rule findPadding_next_block)
  moreover have "x + findPadding x + 512 = x + 512 + findPadding x"
    by simp
  ultimately show ?thesis
    by (simp only: createCSVManifest_def Let_def add_0_right)
qed

text \<open>
  So a manifest is reproduced from its own padded length whenever that padded length equals
  the padded estimate the manifest was built for.
\<close>

lemma createCSVManifest_feedback:
  assumes "of_nat (length data) + findPadding (of_nat (length data))
      = estimate + findPadding estimate"
  shows "createCSVManifest (of_nat (length data) + findPadding (of_nat (length data)))
       headers objectList = createCSVManifest estimate headers objectList"
  by (simp only: assms createCSVManifest_padded_seed)

end
